theory Spec2Isabelle
  imports Main "HOL-Library.Sublist" "HOL-Library.List_Lexorder"
begin

text \<open>
  A shallow embedding of two widgets of the component library: the Tree
  (core/Tree/Tree.tsx, with the TreeNode component it renders) and the ComboBox
  (core/ComboBox/ComboBox.tsx). A handler is a function from the view-state it reads to
  the calls it makes; an effect of the host framework is a function from the rendered
  state to the setter calls it queues; the flattening pass of the Tree runs on a store
  of objects, since it writes into the objects it is given. Line numbers are those of
  the source files.
\<close>

section \<open>JavaScript values shared by the two widgets\<close>

text \<open>
  The run-time errors the sources can raise: a property read on \<open>undefined\<close>
  (TypeError), a read of a \<open>const\<close> binding before its declaration has been
  evaluated (ReferenceError), and the error that \<open>React.cloneElement\<close> throws when
  its argument is \<open>undefined\<close> (CloneElementError).
\<close>

datatype js_error = TypeError | ReferenceError | CloneElementError

text \<open>
  \<open>Array.prototype.findIndex\<close>: the position of the first element satisfying the
  predicate, \<open>-1\<close> when there is none.
\<close>

definition findIndex :: "('a \<Rightarrow> bool) \<Rightarrow> 'a list \<Rightarrow> int" where
  "findIndex P xs =
     (if list_ex P xs then int (length (takeWhile (\<lambda>x. \<not> P x) xs)) else - 1)"

text \<open>
  \<open>xs[i]\<close> for a JavaScript number \<open>i\<close>: \<open>undefined\<close> (here \<open>None\<close>) outside
  \<open>0 .. length - 1\<close>.
\<close>

definition js_at :: "'a list \<Rightarrow> int \<Rightarrow> 'a option" where
  "js_at xs i = (if 0 \<le> i \<and> i < int (length xs) then Some (xs ! nat i) else None)"

text \<open>\<open>s.split(sep)\<close> for a non-empty separator.\<close>

function split_from :: "string \<Rightarrow> string \<Rightarrow> string \<Rightarrow> string list" where
  "split_from sep cur [] = [rev cur]"
| "split_from sep cur (c # cs) =
     (if sep \<noteq> [] \<and> prefix sep (c # cs)
      then rev cur # split_from sep [] (drop (length sep) (c # cs))
      else split_from sep (c # cur) cs)"
  by pat_completeness auto
termination
  by (relation "measure (\<lambda>(sep, cur, s). length s)") auto

definition js_split :: "string \<Rightarrow> string \<Rightarrow> string list" where
  "js_split s sep = split_from sep [] s"

section \<open>Tree: keyboard navigation (Tree.tsx, handleKeyDown)\<close>

text \<open>
  What \<open>handleKeyDown\<close> reads of one \<open>.iui-tree-node\<close> element of the rendered tree:
  whether it carries the class \<open>iui-disabled\<close>; the result of
  \<open>querySelector('.iui-tree-node-content-expander-icon')\<close> on it (\<open>None\<close> for
  \<open>null\<close>, otherwise whether the icon carries the \<open>-expanded\<close> class); the \<open>id\<close> of
  its parent element; and the \<open>aria-owns\<close> attribute of the parent's last child
  (\<open>None\<close> when \<open>getAttribute\<close> returns \<open>null\<close>).
\<close>

record tree_node_el =
  has_disabled_class :: bool
  expander_icon :: "bool option"
  parent_id :: string
  parent_last_child_owns :: "string option"

text \<open>
  The part of the document the handler reads: the \<open>.iui-tree-node\<close> elements below the
  tree's \<open>ul\<close> in document order, and \<open>document.activeElement\<close>, given as the position of
  the focused element in that list, \<open>None\<close> when the focused element is not a tree node
  (a checkbox or an expander button inside a node, the \<open>ul\<close> itself, the body).
  An element is identified by its position in the document.
\<close>

record tree_dom =
  tree_nodes :: "tree_node_el list"
  activeElement :: "nat option"

datatype dom_effect =
    Focus nat                \<comment> \<open>\<open>nodes[newIndex].focus()\<close>, by document position\<close>
  | Click nat                \<comment> \<open>\<open>nodes[currentIndex].click()\<close>\<close>
  | ClickExpander nat        \<comment> \<open>\<open>expander.parentElement?.click()\<close> of that node\<close>
  | PreventDefault

text \<open>\<open>querySelectorAll('.iui-tree-node:not(.iui-disabled)')\<close>, with positions.\<close>

definition enabled_nodes :: "tree_dom \<Rightarrow> (nat \<times> tree_node_el) list" where
  "enabled_nodes d =
     filter (\<lambda>(i, n). \<not> has_disabled_class n) (zip [0..<length (tree_nodes d)] (tree_nodes d))"

text \<open>The \<open>for\<close> loop of the ArrowLeft case, as the first \<open>n\<close> whose list owns the id.\<close>

definition owns_id :: "string \<Rightarrow> (nat \<times> tree_node_el) \<Rightarrow> bool" where
  "owns_id cur_id p =
     (case parent_last_child_owns (snd p) of
        None \<Rightarrow> False
      | Some s \<Rightarrow> findIndex (\<lambda>i. i = cur_id) (js_split s '', '') \<noteq> - 1)"

definition find_parentIndex :: "(nat \<times> tree_node_el) list \<Rightarrow> string \<Rightarrow> int" where
  "find_parentIndex nodes cur_id = findIndex (owns_id cur_id) nodes"

text \<open>The tail of the handler: focus \<open>nodes[newIndex]\<close> when the index is in range.\<close>

definition focus_newIndex :: "(nat \<times> tree_node_el) list \<Rightarrow> int \<Rightarrow> dom_effect list" where
  "focus_newIndex nodes newIndex =
     (if newIndex \<ge> 0 \<and> newIndex < int (length nodes)
      then [Focus (fst (nodes ! nat newIndex)), PreventDefault] else [])"

definition handleKeyDown :: "tree_dom \<Rightarrow> string \<Rightarrow> js_error + dom_effect list" where
  "handleKeyDown d key =
     (let nodes = enabled_nodes d in
      if length nodes = 0 then Inr []
      else
        let currentIndex = findIndex (\<lambda>(i, n). activeElement d = Some i) nodes in
        case js_at nodes currentIndex of
          None \<Rightarrow> Inl TypeError
        | Some cur \<Rightarrow>
            let expander = expander_icon (snd cur) in
            if key = ''ArrowDown'' then Inr (focus_newIndex nodes (currentIndex + 1))
            else if key = ''ArrowUp'' then Inr (focus_newIndex nodes (currentIndex - 1))
            else if key = ''ArrowLeft'' then
              (if expander = None \<or> expander = Some False then
                 (let parentIndex = find_parentIndex nodes (parent_id (snd cur)) in
                  Inr (focus_newIndex nodes
                        (if parentIndex \<noteq> - 1 then parentIndex else currentIndex - 1)))
               else Inr (ClickExpander (fst cur) # focus_newIndex nodes (- 1)))
            else if key = ''ArrowRight'' then
              (if expander = None \<or> expander = Some True
               then Inr (focus_newIndex nodes (currentIndex + 1))
               else Inr [ClickExpander (fst cur)])
            else if key = ''Enter'' \<or> key = '' '' \<or> key = ''Spacebar''
              then Inr [Click (fst cur), PreventDefault]
            else Inr (focus_newIndex nodes (- 1)))"

text \<open>
  The claim's words for arrow navigation: the next enabled node after position \<open>i\<close> in
  document order, and the previous one before it.
\<close>

definition next_enabled :: "tree_node_el list \<Rightarrow> nat \<Rightarrow> nat option" where
  "next_enabled ns i = List.find (\<lambda>j. \<not> has_disabled_class (ns ! j)) [Suc i..<length ns]"

definition prev_enabled :: "tree_node_el list \<Rightarrow> nat \<Rightarrow> nat option" where
  "prev_enabled ns i = List.find (\<lambda>j. \<not> has_disabled_class (ns ! j)) (rev [0..<i])"

section \<open>ComboBox: data and view-state (ComboBox.tsx)\<close>

text \<open>
  \<open>SelectOption<T>\<close> is declared in the Select component, which is not among the sources;
  the fields below are the ones ComboBox.tsx reads (\<open>label\<close>, \<open>value\<close>, \<open>disabled\<close>,
  \<open>id\<close>). An optional property is an \<open>option\<close>, \<open>None\<close> when the property is absent.
  \<open>ExtendedSelectOption<T>\<close> adds \<open>index\<close> and sets \<open>id\<close>; its declared type makes both
  required, but the fallback \<open>{} as ExtendedSelectOption<T>\<close> of the filter effect can
  leave them \<open>undefined\<close> at run time, so both stay optional here.
\<close>

record 'v SelectOption =
  label :: string
  val :: 'v
  disabled :: "bool option"
  opt_id :: "string option"

record 'v ExtendedSelectOption = "'v SelectOption" +
  index :: "nat option"

text \<open>
  The JSX element of one option, a \<open>MenuItem\<close>: its children (the label), its
  \<open>value\<close>, \<open>disabled\<close>, \<open>isSelected\<close> props, whether its class holds \<open>iui-focused\<close>,
  and the id and the value that the closure in its \<open>onClick\<close> prop passes to
  \<open>setSelectedValueId\<close> and to the user's \<open>onChange\<close>.
\<close>

record 'v MenuItem =
  item_label :: string
  item_value :: 'v
  item_disabled :: "bool option"
  item_isSelected :: bool
  item_isFocused :: bool
  click_id :: "string option"
  click_value :: 'v

text \<open>
  The view-state of one ComboBox: its \<open>useState\<close> cells and the \<open>optionsMap\<close> ref.
\<close>

record 'v cb_state =
  extendedOriginalOptions :: "'v ExtendedSelectOption list"
  optionsMap :: "string \<rightharpoonup> 'v ExtendedSelectOption"
  memoizedItems :: "'v MenuItem list"
  isOpen :: bool
  filteredOptions :: "'v ExtendedSelectOption list"
  focusedIndex :: "'v ExtendedSelectOption option"
  selectedValueId :: "string option"
  inputValue :: string

text \<open>The props the modelled code reads.\<close>

datatype prop_val = PStr string | PBool bool | PHandler string | PUndefined

record 'v cb_props =
  options :: "'v SelectOption list"
  value_prop :: "'v option"
  filterFunction ::
    "('v ExtendedSelectOption list \<Rightarrow> string \<Rightarrow> 'v SelectOption list) option"
  emptyStateMessage :: "string option"
  enableVirtualization :: "bool option"
  inputProps :: "(string \<times> prop_val) list"

text \<open>
  What a handler or an effect does: calls of the state setters, of the user's callbacks
  and of the event's methods, in the order of the calls.
  \<open>ToggleIsOpen\<close> is \<open>setIsOpen((open) => !open)\<close>; \<open>RefocusWithin fo sel\<close> is the
  functional update of lines 294-304, closed over the new filtered list and the
  selected option.
\<close>

datatype 'v action =
    SetIsOpen bool
  | ToggleIsOpen
  | SetFocusedIndex "'v ExtendedSelectOption option"
  | RefocusWithin "'v ExtendedSelectOption list" "'v ExtendedSelectOption option"
  | SetSelectedValueId "string option"
  | SetInputValue string
  | SetFilteredOptions "'v ExtendedSelectOption list"
  | UserOnChange 'v
  | InputOnChange string
  | EventPreventDefault
  | EventStopPropagation

text \<open>JavaScript truthiness of an optional boolean (\<open>disabled\<close>, \<open>isExpanded\<close>).\<close>

definition truthy_bool :: "bool option \<Rightarrow> bool" where
  "truthy_bool b = (b = Some True)"

text \<open>
  The update of lines 294-304: keep the previous focus when its id is in the new list,
  else the selected option when its value is in the list, else \<open>undefined\<close>.
  \<open>previouslyFocusedIndex?.id\<close> and \<open>selectedValue?.value\<close> are \<open>undefined\<close> for an
  undefined object.
\<close>

definition refocus ::
  "'v ExtendedSelectOption list \<Rightarrow> 'v ExtendedSelectOption option \<Rightarrow>
   'v ExtendedSelectOption option \<Rightarrow> 'v ExtendedSelectOption option" where
  "refocus fo sel prev =
     (if list_ex (\<lambda>el. opt_id el = (case prev of None \<Rightarrow> None | Some f \<Rightarrow> opt_id f)) fo
        then prev
      else if list_ex (\<lambda>el. (case sel of None \<Rightarrow> False | Some x \<Rightarrow> val el = val x)) fo
        then sel
      else None)"

fun apply_action :: "'v action \<Rightarrow> 'v cb_state \<Rightarrow> 'v cb_state" where
  "apply_action (SetIsOpen b) s = s\<lparr>isOpen := b\<rparr>"
| "apply_action ToggleIsOpen s = s\<lparr>isOpen := \<not> isOpen s\<rparr>"
| "apply_action (SetFocusedIndex f) s = s\<lparr>focusedIndex := f\<rparr>"
| "apply_action (RefocusWithin fo sel) s = s\<lparr>focusedIndex := refocus fo sel (focusedIndex s)\<rparr>"
| "apply_action (SetSelectedValueId i) s = s\<lparr>selectedValueId := i\<rparr>"
| "apply_action (SetInputValue t) s = s\<lparr>inputValue := t\<rparr>"
| "apply_action (SetFilteredOptions fo) s = s\<lparr>filteredOptions := fo\<rparr>"
| "apply_action (UserOnChange v) s = s"
| "apply_action (InputOnChange t) s = s"
| "apply_action EventPreventDefault s = s"
| "apply_action EventStopPropagation s = s"

text \<open>The queued updates of one handler or one round of effects, applied in order.\<close>

definition apply_actions :: "'v action list \<Rightarrow> 'v cb_state \<Rightarrow> 'v cb_state" where
  "apply_actions acts s = fold apply_action acts s"

section \<open>ComboBox: the options map (mapOptions, lines 145-191)\<close>

function show_nat :: "nat \<Rightarrow> string" where
  "show_nat n =
     (if n < 10 then [char_of (48 + n)]
      else show_nat (n div 10) @ [char_of (48 + n mod 10)])"
  by pat_completeness auto
termination
  by (relation "measure (\<lambda>n. n)") auto

definition extend_option :: "string \<Rightarrow> nat \<Rightarrow> 'v SelectOption \<Rightarrow> 'v ExtendedSelectOption" where
  "extend_option cid i opt =
     \<lparr>label = label opt, val = val opt, disabled = disabled opt,
      opt_id = Some (case opt_id opt of
                       None \<Rightarrow> cid @ ''-option'' @ show_nat i
                     | Some x \<Rightarrow> x),
      index = Some i\<rparr>"

definition newOptions :: "string \<Rightarrow> 'v SelectOption list \<Rightarrow> 'v ExtendedSelectOption list" where
  "newOptions cid opts = map (\<lambda>(i, opt). extend_option cid i opt) (zip [0..<length opts] opts)"

definition newOptionsMap ::
  "'v ExtendedSelectOption list \<Rightarrow> (string \<rightharpoonup> 'v ExtendedSelectOption)" where
  "newOptionsMap eos =
     fold (\<lambda>eo m. case opt_id eo of None \<Rightarrow> m(''undefined'' \<mapsto> eo) | Some i \<Rightarrow> m(i \<mapsto> eo))
       eos Map.empty"

text \<open>
  The \<open>jsxItems\<close> of \<open>mapOptions\<close> when no \<open>itemRenderer\<close> prop is given (lines
  181-185): one \<open>MenuItem\<close> for each option, in the order of the options, whose
  \<open>onClick\<close> (lines 161-165) passes on the id and the value of that option; \<open>disabled\<close>
  comes with \<open>{...rest}\<close>.
\<close>

definition jsxItems :: "string \<Rightarrow> 'v SelectOption list \<Rightarrow> 'v MenuItem list" where
  "jsxItems cid opts =
     map (\<lambda>newOption.
            \<lparr>item_label = label newOption, item_value = val newOption,
             item_disabled = disabled newOption, item_isSelected = False,
             item_isFocused = False, click_id = opt_id newOption,
             click_value = val newOption\<rparr>)
       (newOptions cid opts)"

section \<open>ComboBox: handlers\<close>

text \<open>\<open>Array.prototype.find\<close> with a callback that also takes the index.\<close>

definition find_with_index :: "(nat \<Rightarrow> 'a \<Rightarrow> bool) \<Rightarrow> 'a list \<Rightarrow> 'a option" where
  "find_with_index P xs =
     map_option snd (List.find (\<lambda>(i, x). P i x) (zip [0..<length xs] xs))"

text \<open>
  The loop of the ArrowUp case, \<open>for (let i = filteredFocusedIndex - 1; i >= 0; --i)\<close>:
  \<open>scan_up xs k\<close> looks at \<open>i = k - 1, ..., 0\<close>; \<open>!!filteredOptions[i]\<close> is false for
  an index past the end of the list.
\<close>

fun scan_up :: "'v ExtendedSelectOption list \<Rightarrow> nat \<Rightarrow> 'v ExtendedSelectOption option" where
  "scan_up xs 0 = None"
| "scan_up xs (Suc i) =
     (if i < length xs \<and> \<not> truthy_bool (disabled (xs ! i)) then Some (xs ! i)
      else scan_up xs i)"

text \<open>\<open>focusedIndex?.index ?? -1\<close>.\<close>

definition filteredFocusedIndex :: "'v cb_state \<Rightarrow> int" where
  "filteredFocusedIndex s =
     (case focusedIndex s of
        None \<Rightarrow> - 1
      | Some f \<Rightarrow> (case index f of None \<Rightarrow> - 1 | Some i \<Rightarrow> int i))"

text \<open>
  \<open>onKeyDown\<close> (lines 313-386). In the ArrowUp case a stored index of \<open>0\<close> leaves the
  \<open>switch\<close> before the event's methods are called; an undefined stored index makes the
  loop's start \<open>NaN\<close>, so the loop body never runs.
\<close>

definition onKeyDown :: "'v cb_state \<Rightarrow> string \<Rightarrow> 'v action list" where
  "onKeyDown s key =
     (if key = ''ArrowDown'' then
        (if isOpen s then
           (case find_with_index
                   (\<lambda>i opt. int i > filteredFocusedIndex s \<and> \<not> truthy_bool (disabled opt))
                   (filteredOptions s) of
              None \<Rightarrow> []
            | Some nextFilteredOption \<Rightarrow> [SetFocusedIndex (Some nextFilteredOption)])
         else [SetIsOpen True])
        @ [EventPreventDefault, EventStopPropagation]
      else if key = ''ArrowUp'' then
        (case (if isOpen s then focusedIndex s else None) of
           None \<Rightarrow> [EventPreventDefault, EventStopPropagation]
         | Some f \<Rightarrow>
             (case index f of
                None \<Rightarrow> [EventPreventDefault, EventStopPropagation]
              | Some i \<Rightarrow>
                  if i = 0 then []
                  else
                    (case scan_up (filteredOptions s) i of
                       None \<Rightarrow> []
                     | Some nextFilteredOption \<Rightarrow> [SetFocusedIndex (Some nextFilteredOption)])
                    @ [EventPreventDefault, EventStopPropagation]))
      else if key = ''Enter'' then
        (case (if isOpen s then focusedIndex s else None) of
           None \<Rightarrow> []
         | Some f \<Rightarrow> [SetSelectedValueId (opt_id f), UserOnChange (val f)])
        @ [ToggleIsOpen, EventPreventDefault, EventStopPropagation]
      else if key = ''Escape'' then
        [SetIsOpen False, EventPreventDefault, EventStopPropagation]
      else if key = ''Tab'' then [SetIsOpen False]
      else (if \<not> isOpen s then [SetIsOpen True] else []))"

text \<open>
  A click on a rendered menu item. The \<open>onClick\<close> prop of the item (lines 161-165 for
  the memoized items, lines 422-426 for a selected or focused item) sets the selected
  id, calls the user's \<open>onChange\<close> and closes the dropdown. The \<open>MenuItem\<close> component
  (core/Menu) is not among the sources, and what is assumed of it is that it calls its
  \<open>onClick\<close> prop on a click unless its \<open>disabled\<close> prop is truthy.
\<close>

definition click_item :: "'v MenuItem \<Rightarrow> 'v action list" where
  "click_item item =
     (if truthy_bool (item_disabled item) then []
      else [SetSelectedValueId (click_id item), UserOnChange (click_value item), SetIsOpen False])"

text \<open>\<open>onInput\<close> (lines 241-247) with the text of the input element.\<close>

definition onInput :: "string \<Rightarrow> 'v action list" where
  "onInput t = [SetInputValue t, InputOnChange t]"

section \<open>ComboBox: effects\<close>

text \<open>
  \<open>selectedValueId ? optionsMap.current[selectedValueId] : undefined\<close>; the empty string
  is falsy.
\<close>

definition selected_option :: "'v cb_state \<Rightarrow> 'v ExtendedSelectOption option" where
  "selected_option s =
     (case selectedValueId s of
        None \<Rightarrow> None
      | Some i \<Rightarrow> if i = [] then None else optionsMap s i)"

text \<open>
  \<open>String.prototype.toLowerCase\<close>, \<open>trim\<close> and \<open>includes\<close> on the strings of this
  model, whose characters are the code points \<open>U+0000\<close> to \<open>U+00FF\<close>. Among these the
  upper-case letters are \<open>A-Z\<close> (65 to 90) and \<open>U+00C0\<close> to \<open>U+00DE\<close> (192 to 222)
  without the multiplication sign \<open>U+00D7\<close> (215); the lower-case letter of each lies
  32 above it. The white space that \<open>trim\<close> removes is the tab, the line feed, the
  vertical tab, the form feed, the carriage return, the space and the no-break space.
\<close>

definition lower_char :: "char \<Rightarrow> char" where
  "lower_char c =
     (let n = (of_char c :: nat) in
      if (65 \<le> n \<and> n \<le> 90) \<or> (192 \<le> n \<and> n \<le> 222 \<and> n \<noteq> 215)
      then char_of (n + 32) else c)"

definition toLowerCase :: "string \<Rightarrow> string" where
  "toLowerCase t = map lower_char t"

definition is_js_space :: "char \<Rightarrow> bool" where
  "is_js_space c = ((of_char c :: nat) \<in> {9, 10, 11, 12, 13, 32, 160})"

definition trim :: "string \<Rightarrow> string" where
  "trim t = rev (dropWhile is_js_space (rev (dropWhile is_js_space t)))"

definition js_includes :: "string \<Rightarrow> string \<Rightarrow> bool" where
  "js_includes t needle = sublist needle t"

text \<open>The effect of lines 222-224.\<close>

definition effect_resetFiltered :: "'v cb_state \<Rightarrow> 'v action list" where
  "effect_resetFiltered s = [SetFilteredOptions (extendedOriginalOptions s)]"

text \<open>The effect of lines 233-237; an absent \<open>value\<close> prop matches no option.\<close>

definition effect_syncSelectedValueId :: "'v cb_props \<Rightarrow> 'v cb_state \<Rightarrow> 'v action list" where
  "effect_syncSelectedValueId p s =
     [SetSelectedValueId
        (case List.find (\<lambda>opt. Some (val opt) = value_prop p) (extendedOriginalOptions s) of
           None \<Rightarrow> None
         | Some opt \<Rightarrow> opt_id opt)]"

text \<open>The effect of lines 250-260.\<close>

definition effect_selectedChanged :: "'v cb_state \<Rightarrow> 'v action list" where
  "effect_selectedChanged s =
     (case selected_option s of
        None \<Rightarrow> []
      | Some selectedOption \<Rightarrow>
          [SetInputValue (label selectedOption), SetFocusedIndex (Some selectedOption)])"

text \<open>
  \<open>{...el, ...extendedOption}\<close> of lines 280-288: the properties of the original option
  with the same value win; \<open>disabled\<close> is taken from \<open>el\<close> when the original has none;
  with no original the result is \<open>el\<close> alone, without an index.
\<close>

definition merge_filtered ::
  "'v ExtendedSelectOption list \<Rightarrow> 'v SelectOption \<Rightarrow> 'v ExtendedSelectOption" where
  "merge_filtered orig el =
     (case List.find (\<lambda>e. val e = val el) orig of
        None \<Rightarrow> \<lparr>label = label el, val = val el, disabled = disabled el,
                  opt_id = opt_id el, index = None\<rparr>
      | Some e \<Rightarrow> e\<lparr>disabled := (case disabled e of None \<Rightarrow> disabled el | Some b \<Rightarrow> Some b)\<rparr>)"

text \<open>The effect of lines 263-311.\<close>

definition effect_filter :: "'v cb_props \<Rightarrow> 'v cb_state \<Rightarrow> 'v action list" where
  "effect_filter p s =
     (if \<not> isOpen s then []
      else
        let selectedValue = selected_option s in
        if inputValue s = [] \<or>
           (case selectedValue of None \<Rightarrow> False | Some x \<Rightarrow> label x = inputValue s)
        then [SetFilteredOptions (extendedOriginalOptions s)]
        else
          let fo =
            (case filterFunction p of
               Some f \<Rightarrow>
                 map (merge_filtered (extendedOriginalOptions s))
                   (f (extendedOriginalOptions s) (inputValue s))
             | None \<Rightarrow>
                 filter (\<lambda>opt. js_includes (toLowerCase (label opt))
                                  (toLowerCase (trim (inputValue s))))
                   (extendedOriginalOptions s))
          in [SetFilteredOptions fo, RefocusWithin fo selectedValue])"

text \<open>The \<open>onHide\<close> passed to the Popover (lines 525-534).\<close>

definition onHide :: "'v cb_state \<Rightarrow> 'v action list" where
  "onHide s =
     SetFocusedIndex (selected_option s)
     # (case selected_option s of
          None \<Rightarrow> []
        | Some selectedIndex \<Rightarrow> [SetInputValue (label selectedIndex)])"

text \<open>
  One commit of the host framework after a render with state \<open>cur\<close>, the render before
  it having had state \<open>prev\<close>: every effect whose dependency list holds a changed value
  runs, in the order of the source, and its setter calls are queued. The Popover is a
  child of the ComboBox; the component (utils/Popover, a wrapper of the tippy library)
  is not among the sources, and what is assumed of it is that it calls its \<open>onHide\<close>
  prop when its \<open>visible\<close> prop, here \<open>isOpen\<close>, turns from true to false. The props are
  the same in both renders.
\<close>

definition run_effects :: "'v cb_props \<Rightarrow> 'v cb_state \<Rightarrow> 'v cb_state \<Rightarrow> 'v action list" where
  "run_effects p prev cur =
     (if isOpen prev \<and> \<not> isOpen cur then onHide cur else [])
     @ (if extendedOriginalOptions prev \<noteq> extendedOriginalOptions cur
        then effect_resetFiltered cur else [])
     @ (if extendedOriginalOptions prev \<noteq> extendedOriginalOptions cur
        then effect_syncSelectedValueId p cur else [])
     @ (if selectedValueId prev \<noteq> selectedValueId cur then effect_selectedChanged cur else [])
     @ (if inputValue prev \<noteq> inputValue cur \<or> selectedValueId prev \<noteq> selectedValueId cur
           \<or> isOpen prev \<noteq> isOpen cur
           \<or> extendedOriginalOptions prev \<noteq> extendedOriginalOptions cur
        then effect_filter p cur else [])"

text \<open>
  Renders and commits repeat until a commit queues nothing; \<open>None\<close> when the fuel is
  used up before that.
\<close>

fun settle :: "nat \<Rightarrow> 'v cb_props \<Rightarrow> 'v cb_state \<Rightarrow> 'v cb_state \<Rightarrow> 'v cb_state option" where
  "settle 0 p prev cur = None"
| "settle (Suc n) p prev cur =
     (if run_effects p prev cur = [] then Some cur
      else settle n p cur (apply_actions (run_effects p prev cur) cur))"

text \<open>An event: the handler's queued updates are applied, then the commits follow.\<close>

definition dispatch ::
  "nat \<Rightarrow> 'v cb_props \<Rightarrow> 'v cb_state \<Rightarrow> 'v action list \<Rightarrow> 'v cb_state option" where
  "dispatch fuel p s acts = settle fuel p s (apply_actions acts s)"

section \<open>Tree: the flattened node list (Tree.tsx, flatNodesList)\<close>

record 'a NodeData =
  subNodes :: "'a list option"
  nodeId :: string
  node :: 'a
  isExpanded :: "bool option"
  isDisabled :: "bool option"
  depth :: "nat option"

text \<open>
  \<open>addSubNodes\<close> writes the \<open>depth\<close> property of the object that \<open>getNode\<close> returns,
  so the objects are kept in a store. \<open>getNode\<close> either hands out an object that exists
  already (a cached \<open>NodeData\<close>, or the element itself), given by its address, or
  creates one by the call. The store keeps the two kinds apart: the objects that exist
  before the pass, by address, and the objects created during the pass, in the order of
  their creation; \<open>flatList\<close> is the array the pass fills.
\<close>

datatype 'a returned = Existing nat | Fresh "'a NodeData"

datatype obj_ref = Old nat | New nat

record 'a store =
  old_objs :: "nat \<Rightarrow> 'a NodeData"
  new_objs :: "'a NodeData list"
  flatList :: "obj_ref list"

definition deref :: "'a store \<Rightarrow> obj_ref \<Rightarrow> 'a NodeData" where
  "deref st r = (case r of Old a \<Rightarrow> old_objs st a | New k \<Rightarrow> new_objs st ! k)"

text \<open>\<open>const flatNode = getNode(element)\<close>.\<close>

definition call_getNode :: "('a \<Rightarrow> 'a returned) \<Rightarrow> 'a \<Rightarrow> 'a store \<Rightarrow> obj_ref \<times> 'a store" where
  "call_getNode getNode element st =
     (case getNode element of
        Existing a \<Rightarrow> (Old a, st)
      | Fresh obj \<Rightarrow> (New (length (new_objs st)), st\<lparr>new_objs := new_objs st @ [obj]\<rparr>))"

text \<open>\<open>flatNode.depth = depth\<close>.\<close>

definition set_depth :: "obj_ref \<Rightarrow> nat \<Rightarrow> 'a store \<Rightarrow> 'a store" where
  "set_depth r d st =
     (case r of
        Old a \<Rightarrow> st\<lparr>old_objs := (old_objs st)(a := (old_objs st a)\<lparr>depth := Some d\<rparr>)\<rparr>
      | New k \<Rightarrow> st\<lparr>new_objs := (new_objs st)[k := (new_objs st ! k)\<lparr>depth := Some d\<rparr>]\<rparr>)"

text \<open>\<open>flatList.push(flatNode)\<close>.\<close>

definition push :: "obj_ref \<Rightarrow> 'a store \<Rightarrow> 'a store" where
  "push r st = st\<lparr>flatList := flatList st @ [r]\<rparr>"

text \<open>\<open>Array.prototype.forEach\<close> with a callback that may not return.\<close>

fun forEach :: "('a \<Rightarrow> 's \<Rightarrow> 's option) \<Rightarrow> 'a list \<Rightarrow> 's \<Rightarrow> 's option" where
  "forEach f [] st = Some st"
| "forEach f (x # xs) st = (case f x st of None \<Rightarrow> None | Some st' \<Rightarrow> forEach f xs st')"

text \<open>
  \<open>addSubNodes\<close> (lines 160-169). The recursion follows what \<open>getNode\<close> returns and
  need not end; the fuel bounds the depth of the calls, and \<open>None\<close> is a pass that
  does not return.
\<close>

fun addSubNodes ::
  "nat \<Rightarrow> ('a \<Rightarrow> 'a returned) \<Rightarrow> 'a \<Rightarrow> nat \<Rightarrow> 'a store \<Rightarrow> 'a store option" where
  "addSubNodes 0 getNode element d st = None"
| "addSubNodes (Suc fuel) getNode element d st =
     (let (flatNode, st1) = call_getNode getNode element st;
          st2 = push flatNode (set_depth flatNode d st1)
      in if truthy_bool (isExpanded (deref st2 flatNode)) then
           (case subNodes (deref st2 flatNode) of
              None \<Rightarrow> Some st2
            | Some subs \<Rightarrow> forEach (\<lambda>subNode. addSubNodes fuel getNode subNode (d + 1)) subs st2)
         else Some st2)"

text \<open>
  \<open>flatNodesList\<close> (lines 157-176), run on the objects \<open>heap\<close> that exist before the
  pass; the result holds the filled \<open>flatList\<close> and the objects as the pass leaves them.
\<close>

definition flatNodesList ::
  "nat \<Rightarrow> ('a \<Rightarrow> 'a returned) \<Rightarrow> 'a list \<Rightarrow> (nat \<Rightarrow> 'a NodeData) \<Rightarrow> 'a store option" where
  "flatNodesList fuel getNode data heap =
     forEach (\<lambda>element. addSubNodes fuel getNode element 0) data
       \<lparr>old_objs = heap, new_objs = [], flatList = []\<rparr>"

text \<open>The entries as the render reads them (lines 186-198).\<close>

definition rendered_nodes :: "'a store \<Rightarrow> 'a NodeData list" where
  "rendered_nodes st = map (deref st) (flatList st)"

text \<open>
  The claim's words. A node is named by its path from a root: the position of the root
  in \<open>data\<close>, then the position of each next node among the \<open>subNodes\<close> of the one before.
  \<open>node_content\<close> is what \<open>getNode\<close> says of an element before the pass. \<open>elem_at\<close> is
  the element at a path; \<open>ancestors_expanded\<close> says that every node above the path's
  end has \<open>isExpanded\<close> true.
\<close>

definition node_content :: "('a \<Rightarrow> 'a returned) \<Rightarrow> (nat \<Rightarrow> 'a NodeData) \<Rightarrow> 'a \<Rightarrow> 'a NodeData" where
  "node_content getNode heap element =
     (case getNode element of Existing a \<Rightarrow> heap a | Fresh obj \<Rightarrow> obj)"

definition subs_of :: "'a NodeData \<Rightarrow> 'a list" where
  "subs_of nd = (case subNodes nd of None \<Rightarrow> [] | Some xs \<Rightarrow> xs)"

fun elem_at :: "('a \<Rightarrow> 'a NodeData) \<Rightarrow> 'a list \<Rightarrow> nat list \<Rightarrow> 'a option" where
  "elem_at c xs [] = None"
| "elem_at c xs [i] = (if i < length xs then Some (xs ! i) else None)"
| "elem_at c xs (i # j # p) =
     (if i < length xs then elem_at c (subs_of (c (xs ! i))) (j # p) else None)"

fun ancestors_expanded :: "('a \<Rightarrow> 'a NodeData) \<Rightarrow> 'a list \<Rightarrow> nat list \<Rightarrow> bool" where
  "ancestors_expanded c xs [] = True"
| "ancestors_expanded c xs [i] = True"
| "ancestors_expanded c xs (i # j # p) =
     (i < length xs \<and> truthy_bool (isExpanded (c (xs ! i)))
      \<and> ancestors_expanded c (subs_of (c (xs ! i))) (j # p))"

definition visible :: "('a \<Rightarrow> 'a NodeData) \<Rightarrow> 'a list \<Rightarrow> nat list \<Rightarrow> bool" where
  "visible c xs p = (elem_at c xs p \<noteq> None \<and> ancestors_expanded c xs p)"

text \<open>Two objects that agree on every property but \<open>depth\<close>.\<close>

definition same_but_depth :: "'a NodeData \<Rightarrow> 'a NodeData \<Rightarrow> bool" where
  "same_but_depth x y = (x\<lparr>depth := None\<rparr> = y\<lparr>depth := None\<rparr>)"

section \<open>Rendered attributes and menu entries\<close>

text \<open>
  The props object of a JSX element, from its attributes and spreads in the order they
  are written: a later entry for a name replaces an earlier one. A prop whose value is
  \<open>undefined\<close> renders no attribute.
\<close>

definition jsx_prop :: "(string \<times> prop_val) list \<Rightarrow> string \<Rightarrow> prop_val" where
  "jsx_prop ps k = (case map_of (rev ps) k of None \<Rightarrow> PUndefined | Some v \<Rightarrow> v)"

text \<open>\<open>enableVirtualization = false\<close> and \<open>emptyStateMessage = 'No options found'\<close>.\<close>

definition virtualized :: "'v cb_props \<Rightarrow> bool" where
  "virtualized p = (case enableVirtualization p of None \<Rightarrow> False | Some b \<Rightarrow> b)"

definition emptyStateMessage_of :: "'v cb_props \<Rightarrow> string" where
  "emptyStateMessage_of p =
     (case emptyStateMessage p of None \<Rightarrow> ''No options found'' | Some m \<Rightarrow> m)"

text \<open>The attributes of the \<open>Input\<close> element (lines 536-552); \<open>cid\<close> is the ComboBox's id.\<close>

definition ComboBox_Input_props ::
  "string \<Rightarrow> 'v cb_props \<Rightarrow> 'v cb_state \<Rightarrow> (string \<times> prop_val) list" where
  "ComboBox_Input_props cid p s =
     [(''ref'', PHandler ''inputRef''),
      (''onKeyDown'', PHandler ''onKeyDown''),
      (''onFocus'', PHandler ''onFocus''),
      (''value'', PStr (inputValue s)),
      (''aria-activedescendant'',
         (case (if isOpen s then focusedIndex s else None) of
            None \<Rightarrow> PUndefined
          | Some f \<Rightarrow> (case opt_id f of None \<Rightarrow> PUndefined | Some i \<Rightarrow> PStr i))),
      (''role'', PStr ''combobox''),
      (''aria-controls'', (if isOpen s then PStr (cid @ ''-list'') else PUndefined)),
      (''aria-autocomplete'', PStr ''list''),
      (''spellCheck'', PBool False),
      (''autoCapitalize'', PStr ''none''),
      (''autoCorrect'', PStr ''off'')]
     @ inputProps p
     @ [(''onChange'', PHandler ''onInput'')]"

text \<open>
  The id of the list element: \<open>Menu id={`${id}-list`}\<close> at line 510, and at line 36
  inside \<open>VirtualComboboxMenu\<close>, whose own \<open>id\<close> prop is already \<open>`${id}-list`\<close> (line
  502).
\<close>

definition Menu_id :: "string \<Rightarrow> 'v cb_props \<Rightarrow> string" where
  "Menu_id cid p = (if virtualized p then (cid @ ''-list'') @ ''-list'' else cid @ ''-list'')"

text \<open>The attributes of the Tree's \<open>ul\<close> (Tree.tsx, lines 179-185).\<close>

definition Tree_ul_props :: "string option \<Rightarrow> (string \<times> prop_val) list \<Rightarrow> (string \<times> prop_val) list" where
  "Tree_ul_props className rest =
     [(''className'',
         PStr (case className of None \<Rightarrow> ''iui-tree'' | Some c \<Rightarrow>
                 if c = [] then ''iui-tree'' else ''iui-tree '' @ c)),
      (''role'', PStr ''tree''),
      (''onKeyDown'', PHandler ''handleKeyDown''),
      (''ref'', PHandler ''treeRef'')]
     @ rest"

text \<open>
  The attributes of a TreeNode's \<open>li\<close> (the TreeNode component, lines 132-138), with the defaults
  \<open>isExpanded = false\<close> and \<open>isDisabled = false\<close> of the destructuring.
\<close>

definition TreeNode_li_props ::
  "string \<Rightarrow> bool option \<Rightarrow> bool option \<Rightarrow> (string \<times> prop_val) list \<Rightarrow> (string \<times> prop_val) list" where
  "TreeNode_li_props nodeId_prop isExpanded_prop isDisabled_prop rest =
     [(''role'', PStr ''treeitem''),
      (''id'', PStr nodeId_prop),
      (''aria-expanded'', PBool (case isExpanded_prop of None \<Rightarrow> False | Some b \<Rightarrow> b)),
      (''aria-disabled'', PBool (case isDisabled_prop of None \<Rightarrow> False | Some b \<Rightarrow> b))]
     @ rest"

text \<open>
  The children of the dropdown's menu: the empty-state entry, or the \<open>MenuItem\<close> of an
  option.
\<close>

datatype 'v menu_child =
    MenuExtraContent string
  | MenuItemEl "'v MenuItem"

text \<open>
  \<open>getSingleMenuItem\<close> (lines 388-440), no \<open>itemRenderer\<close> prop being given:
  \<open>undefined\<close> past the end of the filtered list. \<open>optionsMap.current[filteredOption.id]\<close>
  reads the key \<open>undefined\<close> for an option without id, and \<open>memoizedItems[originalIndex]\<close>
  is \<open>undefined\<close> when the map has no such option, when the option has no index or when
  the index is past the end of \<open>memoizedItems\<close>. A selected or focused option gets a
  clone of the memoized element, and \<open>React.cloneElement\<close> throws on \<open>undefined\<close>;
  the clone's \<open>value\<close> and \<open>onClick\<close> are those of the filtered option, its children
  and \<open>disabled\<close> stay those of the memoized element.
\<close>

definition getSingleMenuItem :: "'v cb_state \<Rightarrow> nat \<Rightarrow> js_error + 'v MenuItem option" where
  "getSingleMenuItem s i =
     (if i < length (filteredOptions s) then
        (let filteredOption = filteredOptions s ! i;
             isSelected = (selectedValueId s = opt_id filteredOption);
             isFocused = ((case focusedIndex s of None \<Rightarrow> None | Some f \<Rightarrow> opt_id f)
                            = opt_id filteredOption);
             originalIndex =
               (case optionsMap s (case opt_id filteredOption of
                                     None \<Rightarrow> ''undefined'' | Some k \<Rightarrow> k) of
                  None \<Rightarrow> None
                | Some original \<Rightarrow> index original);
             memoized =
               (case originalIndex of
                  None \<Rightarrow> None
                | Some k \<Rightarrow> if k < length (memoizedItems s)
                            then Some (memoizedItems s ! k) else None)
         in if isSelected \<or> isFocused then
              (case memoized of
                 None \<Rightarrow> Inl CloneElementError
               | Some item \<Rightarrow>
                   Inr (Some (item\<lparr>item_isSelected := isSelected,
                                    item_isFocused := isFocused,
                                    item_value := val filteredOption,
                                    click_id := opt_id filteredOption,
                                    click_value := val filteredOption\<rparr>)))
            else Inr memoized)
      else Inr None)"

text \<open>The first error of a list of results, or the list of their values.\<close>

fun collect_results :: "('e + 'a) list \<Rightarrow> 'e + 'a list" where
  "collect_results [] = Inr []"
| "collect_results (Inl e # rs) = Inl e"
| "collect_results (Inr x # rs) =
     (case collect_results rs of Inl e \<Rightarrow> Inl e | Inr xs \<Rightarrow> Inr (x # xs))"

text \<open>\<open>menuItems\<close> (lines 442-451).\<close>

definition menuItems :: "'v cb_props \<Rightarrow> 'v cb_state \<Rightarrow> js_error + 'v menu_child option list" where
  "menuItems p s =
     (if length (filteredOptions s) = 0
      then Inr [Some (MenuExtraContent (emptyStateMessage_of p))]
      else (case collect_results (map (\<lambda>i. getSingleMenuItem s i) [0..<length (filteredOptions s)]) of
              Inl e \<Rightarrow> Inl e
            | Inr items \<Rightarrow> Inr (map (map_option MenuItemEl) items)))"

text \<open>\<open>virtualizedItemRenderer\<close> (lines 453-461).\<close>

definition virtualizedItemRenderer ::
  "'v cb_props \<Rightarrow> 'v cb_state \<Rightarrow> nat \<Rightarrow> js_error + 'v menu_child" where
  "virtualizedItemRenderer p s i =
     (case getSingleMenuItem s i of
        Inl e \<Rightarrow> Inl e
      | Inr None \<Rightarrow> Inr (MenuExtraContent (emptyStateMessage_of p))
      | Inr (Some item) \<Rightarrow> Inr (MenuItemEl item))"

text \<open>
  The content of the Popover (lines 490-524): the \<open>Menu\<close> with its id and children, or
  the \<open>VirtualComboboxMenu\<close> with its \<open>id\<close>, \<open>itemsLength\<close>, \<open>itemRenderer\<close> and
  \<open>scrollToIndex\<close> props. \<open>menuItems\<close> is computed in every render, before the JSX is
  built, so an error it raises is raised by the render in either case.
\<close>

datatype 'v dropdown =
    Menu string "'v menu_child option list"
  | VirtualComboboxMenu string nat "nat \<Rightarrow> js_error + 'v menu_child" "nat option"

definition dropdown_content ::
  "string \<Rightarrow> 'v cb_props \<Rightarrow> 'v cb_state \<Rightarrow> js_error + 'v dropdown" where
  "dropdown_content cid p s =
     (case menuItems p s of
        Inl e \<Rightarrow> Inl e
      | Inr children \<Rightarrow>
          Inr (if virtualized p
               then VirtualComboboxMenu (cid @ ''-list'') (length (filteredOptions s))
                      (virtualizedItemRenderer p s)
                      (case focusedIndex s of None \<Rightarrow> None | Some f \<Rightarrow> index f)
               else Menu (cid @ ''-list'') children))"

text \<open>
  The children that the dropdown's list renders. The \<open>Menu\<close> renders its children.
  The \<open>VirtualComboboxMenu\<close> renders the \<open>visibleChildren\<close> of \<open>useVirtualization\<close> (line
  32); that hook (utils/VirtualScroll) is not among the sources, and what is assumed of
  it is that it calls \<open>itemRenderer\<close> on the indices of a window of its own choosing,
  the parameter \<open>window\<close>, and on none outside \<open>0 .. itemsLength - 1\<close>.
\<close>

definition rendered_children ::
  "nat list \<Rightarrow> 'v dropdown \<Rightarrow> js_error + 'v menu_child option list" where
  "rendered_children window dd =
     (case dd of
        Menu i children \<Rightarrow> Inr children
      | VirtualComboboxMenu i itemsLength itemRenderer scrollToIndex \<Rightarrow>
          (case collect_results (map itemRenderer (filter (\<lambda>k. k < itemsLength) window)) of
             Inl e \<Rightarrow> Inl e
           | Inr items \<Rightarrow> Inr (map Some items)))"

text \<open>The dropdown as a render shows it: its content, then the children of its list.\<close>

definition rendered_dropdown ::
  "nat list \<Rightarrow> string \<Rightarrow> 'v cb_props \<Rightarrow> 'v cb_state \<Rightarrow> js_error + 'v menu_child option list" where
  "rendered_dropdown window cid p s =
     (case dropdown_content cid p s of
        Inl e \<Rightarrow> Inl e
      | Inr dd \<Rightarrow> rendered_children window dd)"

section \<open>ComboBox: events\<close>

text \<open>
  The events of the user that reach a handler of the ComboBox: the input takes the focus
  (line 539), the text of the input changes (\<open>onChange\<close>, line 551), a key goes down in
  the input (line 538), a click on the rendered item at a position of the dropdown, a
  click on the toggle button (lines 561-567), a click outside the dropdown and the
  button (lines 482-486). The items are rendered while the dropdown is open, and a
  click at a position where no item is rendered calls no handler. The click on the
  button of a closed ComboBox calls \<open>focus\<close> on the input, and the input's \<open>onFocus\<close>
  runs unless the input has the focus already, which the event says. The Popover is
  taken to report a click outside only while it is visible.
\<close>

datatype cb_event =
    InputFocus
  | InputChange string
  | InputKeyDown string
  | ItemClick nat
  | ToggleClick bool
  | OutsideClick

definition handler_calls :: "'v cb_state \<Rightarrow> cb_event \<Rightarrow> 'v action list" where
  "handler_calls s ev =
     (case ev of
        InputFocus \<Rightarrow> [SetIsOpen True]
      | InputChange t \<Rightarrow> onInput t
      | InputKeyDown key \<Rightarrow> onKeyDown s key
      | ItemClick k \<Rightarrow>
          (if isOpen s then
             (case getSingleMenuItem s k of
                Inr (Some item) \<Rightarrow> click_item item
              | _ \<Rightarrow> [])
           else [])
      | ToggleClick inputHasFocus \<Rightarrow>
          (if isOpen s then [SetIsOpen False]
           else if inputHasFocus then [] else [SetIsOpen True])
      | OutsideClick \<Rightarrow> (if isOpen s then [SetIsOpen False] else []))"

text \<open>A sequence of events, each followed by its commits.\<close>

fun run_events ::
  "nat \<Rightarrow> 'v cb_props \<Rightarrow> 'v cb_state \<Rightarrow> cb_event list \<Rightarrow> 'v cb_state option" where
  "run_events fuel p s [] = Some s"
| "run_events fuel p s (ev # evs) =
     (case dispatch fuel p s (handler_calls s ev) of
        None \<Rightarrow> None
      | Some s' \<Rightarrow> run_events fuel p s' evs)"

section \<open>ComboBox: the first render\<close>

text \<open>
  A \<open>const\<close> of the component's body is uninitialised until its declaration has been
  evaluated; reading it before that raises a ReferenceError. The scope below holds the
  state cells in the order of their declarations.
\<close>

datatype 'a binding = Uninitialized | Initialized 'a

definition read_const :: "'a binding \<Rightarrow> js_error + 'a" where
  "read_const b = (case b of Uninitialized \<Rightarrow> Inl ReferenceError | Initialized v \<Rightarrow> Inr v)"

record 'v cb_scope =
  c_extendedOriginalOptions :: "'v ExtendedSelectOption list binding"
  c_optionsMap :: "(string \<rightharpoonup> 'v ExtendedSelectOption) binding"
  c_isOpen :: "bool binding"
  c_filteredOptions :: "'v ExtendedSelectOption list binding"
  c_focusedIndex :: "'v ExtendedSelectOption option binding"
  c_selectedValueId :: "string option binding"
  c_inputValue :: "string binding"

definition empty_scope :: "'v cb_scope" where
  "empty_scope =
     \<lparr>c_extendedOriginalOptions = Uninitialized, c_optionsMap = Uninitialized,
      c_isOpen = Uninitialized, c_filteredOptions = Uninitialized,
      c_focusedIndex = Uninitialized, c_selectedValueId = Uninitialized,
      c_inputValue = Uninitialized\<rparr>"

text \<open>
  The initialiser of the \<open>focusedIndex\<close> cell (lines 226-228),
  \<open>() => (selectedValueId ? optionsMap.current[selectedValueId] : undefined)\<close>, which
  the framework calls during the first render, inside that \<open>useState\<close> call.
\<close>

definition focusedIndex_initializer ::
  "'v cb_scope \<Rightarrow> js_error + 'v ExtendedSelectOption option" where
  "focusedIndex_initializer sc =
     (case read_const (c_selectedValueId sc) of
        Inl e \<Rightarrow> Inl e
      | Inr None \<Rightarrow> Inr None
      | Inr (Some i) \<Rightarrow>
          if i = [] then Inr None
          else (case read_const (c_optionsMap sc) of Inl e \<Rightarrow> Inl e | Inr m \<Rightarrow> Inr (m i)))"

text \<open>
  The state declarations of the first render, in the order of the source: lines 193,
  196, 197, 209, 219, 226, 231 and 240.
\<close>

definition first_render :: "js_error + 'v cb_state" where
  "first_render =
     (let sc1 = empty_scope\<lparr>c_extendedOriginalOptions := Initialized []\<rparr>;
          sc2 = sc1\<lparr>c_optionsMap := Initialized Map.empty\<rparr>;
          sc3 = sc2\<lparr>c_isOpen := Initialized False\<rparr>
      in case read_const (c_extendedOriginalOptions sc3) of
           Inl e \<Rightarrow> Inl e
         | Inr eo \<Rightarrow>
             (let sc4 = sc3\<lparr>c_filteredOptions := Initialized eo\<rparr>
              in case focusedIndex_initializer sc4 of
                   Inl e \<Rightarrow> Inl e
                 | Inr f \<Rightarrow>
                     (let sc5 = sc4\<lparr>c_focusedIndex := Initialized f\<rparr>;
                          sc6 = sc5\<lparr>c_selectedValueId := Initialized None\<rparr>;
                          sc7 = sc6\<lparr>c_inputValue := Initialized []\<rparr>
                      in Inr \<lparr>extendedOriginalOptions = eo, optionsMap = Map.empty,
                              memoizedItems = [], isOpen = False, filteredOptions = eo, focusedIndex = f,
                              selectedValueId = None, inputValue = []\<rparr>)))"

section \<open>Example inputs\<close>

text \<open>
  A ComboBox with three options without ids of their own, the second disabled, its
  dropdown open; the same with the dropdown closed; a ComboBox whose two options share
  the id \<open>x\<close>; a ComboBox whose one option has the empty string as its id; props that
  pass a \<open>role\<close> through \<open>inputProps\<close>; props with \<open>enableVirtualization\<close>; and a state
  whose filtered list is empty. In each state the options map, the memoized items and
  the original options are those that \<open>mapOptions\<close> builds from the options, for a
  ComboBox with the id \<open>cb\<close>.
\<close>

definition ex_options :: "nat SelectOption list" where
  "ex_options =
     [\<lparr>label = ''Apple'', val = 1, disabled = None, opt_id = None\<rparr>,
      \<lparr>label = ''Banana'', val = 2, disabled = Some True, opt_id = None\<rparr>,
      \<lparr>label = ''Cherry'', val = 3, disabled = None, opt_id = None\<rparr>]"

definition ex_props :: "nat cb_props" where
  "ex_props = \<lparr>options = ex_options, value_prop = None, filterFunction = None,
      emptyStateMessage = None, enableVirtualization = None, inputProps = []\<rparr>"

definition ex_state :: "nat cb_state" where
  "ex_state =
     \<lparr>extendedOriginalOptions = newOptions ''cb'' ex_options,
      optionsMap = newOptionsMap (newOptions ''cb'' ex_options),
      memoizedItems = jsxItems ''cb'' ex_options,
      isOpen = True,
      filteredOptions = newOptions ''cb'' ex_options,
      focusedIndex = None,
      selectedValueId = None,
      inputValue = []\<rparr>"


definition ex_dup_options :: "nat SelectOption list" where
  "ex_dup_options =
     [\<lparr>label = ''A'', val = 1, disabled = None, opt_id = Some ''x''\<rparr>,
      \<lparr>label = ''B'', val = 2, disabled = None, opt_id = Some ''x''\<rparr>]"

definition ex_dup_state :: "nat cb_state" where
  "ex_dup_state =
     \<lparr>extendedOriginalOptions = newOptions ''cb'' ex_dup_options,
      optionsMap = newOptionsMap (newOptions ''cb'' ex_dup_options),
      memoizedItems = jsxItems ''cb'' ex_dup_options,
      isOpen = True,
      filteredOptions = newOptions ''cb'' ex_dup_options,
      focusedIndex = None,
      selectedValueId = None,
      inputValue = []\<rparr>"

definition ex_dup_props :: "nat cb_props" where
  "ex_dup_props = ex_props\<lparr>options := ex_dup_options\<rparr>"

definition ex_empty_id_options :: "nat SelectOption list" where
  "ex_empty_id_options = [\<lparr>label = ''A'', val = 1, disabled = None, opt_id = Some []\<rparr>]"

definition ex_empty_id_props :: "nat cb_props" where
  "ex_empty_id_props = ex_props\<lparr>options := ex_empty_id_options\<rparr>"

definition ex_empty_id_state :: "nat cb_state" where
  "ex_empty_id_state =
     \<lparr>extendedOriginalOptions = newOptions ''cb'' ex_empty_id_options,
      optionsMap = newOptionsMap (newOptions ''cb'' ex_empty_id_options),
      memoizedItems = jsxItems ''cb'' ex_empty_id_options,
      isOpen = True,
      filteredOptions = newOptions ''cb'' ex_empty_id_options,
      focusedIndex = None,
      selectedValueId = None,
      inputValue = []\<rparr>"

definition ex_props_role :: "nat cb_props" where
  "ex_props_role = ex_props\<lparr>inputProps := [(''role'', PStr ''searchbox'')]\<rparr>"

definition ex_props_virtual :: "nat cb_props" where
  "ex_props_virtual = ex_props\<lparr>enableVirtualization := Some True\<rparr>"

definition ex_state_no_match :: "nat cb_state" where
  "ex_state_no_match = ex_state\<lparr>filteredOptions := [], inputValue := ''zzz''\<rparr>"

text \<open>
  Trees over elements that are numbers. \<open>ex_tree_getNode\<close> creates an object by each
  call: node 1 is expanded and has the sub-nodes 11 and 12. \<open>ex_shared_getNode\<close> hands
  out the object kept at the element's own address, and node 0 is expanded with the
  sub-node 1. \<open>ex_cyclic_getNode\<close> makes every node an expanded sub-node of itself.
  \<open>ex_cached_getNode\<close> hands out the object kept ten addresses above the element.
\<close>

definition ex_leaf :: "nat \<Rightarrow> nat NodeData" where
  "ex_leaf x = \<lparr>subNodes = None, nodeId = show_nat x, node = x, isExpanded = Some False,
      isDisabled = Some False, depth = None\<rparr>"

definition ex_tree_getNode :: "nat \<Rightarrow> nat returned" where
  "ex_tree_getNode x =
     Fresh ((ex_leaf x)\<lparr>subNodes := Some (if x = 1 then [11, 12] else []),
                         isExpanded := Some (x = 1)\<rparr>)"

definition ex_shared_heap :: "nat \<Rightarrow> nat NodeData" where
  "ex_shared_heap a = (if a = 0 then (ex_leaf 0)\<lparr>subNodes := Some [1], isExpanded := Some True\<rparr>
                        else ex_leaf a)"

definition ex_shared_getNode :: "nat \<Rightarrow> nat returned" where
  "ex_shared_getNode x = Existing x"

definition ex_cyclic_getNode :: "nat \<Rightarrow> nat returned" where
  "ex_cyclic_getNode x = Fresh ((ex_leaf x)\<lparr>subNodes := Some [x], isExpanded := Some True\<rparr>)"

definition ex_cached_heap :: "nat \<Rightarrow> nat NodeData" where
  "ex_cached_heap a = (if a = 10 then (ex_leaf 0)\<lparr>subNodes := Some [1], isExpanded := Some True\<rparr>
                        else ex_leaf (a - 10))"

definition ex_cached_getNode :: "nat \<Rightarrow> nat returned" where
  "ex_cached_getNode x = Existing (x + 10)"

section \<open>Auxiliary definitions for the proofs about the flattened list\<close>

text \<open>
  None of these is code of the repository. \<open>visit\<close> is the first three statements of
  \<open>addSubNodes\<close> taken together; \<open>walk_node\<close> and \<open>walk_forest\<close> list, without a store,
  the nodes that the pass visits, each with its path below the walk's start and its
  depth; \<open>visits\<close> replays such a list on a store. \<open>agrees\<close>, \<open>valid_ref\<close> and
  \<open>refs_valid\<close> are the invariants of the replay, and \<open>node_ok\<close> and \<open>forest_ok\<close> say
  what a walk's list holds.
\<close>

definition visit :: "('a \<Rightarrow> 'a returned) \<Rightarrow> nat \<Rightarrow> 'a \<Rightarrow> 'a store \<Rightarrow> 'a store" where
  "visit getNode d element st =
     (let (flatNode, st1) = call_getNode getNode element st
      in push flatNode (set_depth flatNode d st1))"

definition visit_ref :: "('a \<Rightarrow> 'a returned) \<Rightarrow> 'a \<Rightarrow> 'a store \<Rightarrow> obj_ref" where
  "visit_ref getNode element st = fst (call_getNode getNode element st)"

definition shift_paths :: "nat \<Rightarrow> (nat list \<times> nat \<times> 'a) list \<Rightarrow> (nat list \<times> nat \<times> 'a) list" where
  "shift_paths i W = map (\<lambda>(q, d, y). (i # q, d, y)) W"

fun walk_node :: "nat \<Rightarrow> ('a \<Rightarrow> 'a NodeData) \<Rightarrow> nat \<Rightarrow> 'a \<Rightarrow> (nat list \<times> nat \<times> 'a) list option"
  and walk_forest :: "nat \<Rightarrow> ('a \<Rightarrow> 'a NodeData) \<Rightarrow> nat \<Rightarrow> nat \<Rightarrow> 'a list \<Rightarrow> (nat list \<times> nat \<times> 'a) list option"
where
  "walk_node 0 c d e = None"
| "walk_node (Suc n) c d e =
     (if truthy_bool (isExpanded (c e))
      then map_option (\<lambda>W. ([], d, e) # W) (walk_forest n c (d + 1) 0 (subs_of (c e)))
      else Some [([], d, e)])"
| "walk_forest n c d i [] = Some []"
| "walk_forest n c d i (x # xs) =
     (case walk_node n c d x of
        None \<Rightarrow> None
      | Some W \<Rightarrow>
          (case walk_forest n c d (Suc i) xs of
             None \<Rightarrow> None
           | Some W' \<Rightarrow> Some (shift_paths i W @ W')))"

definition agrees :: "(nat \<Rightarrow> 'a NodeData) \<Rightarrow> 'a store \<Rightarrow> bool" where
  "agrees heap st = (\<forall>a. same_but_depth (old_objs st a) (heap a))"

definition visits :: "('a \<Rightarrow> 'a returned) \<Rightarrow> (nat list \<times> nat \<times> 'a) list \<Rightarrow> 'a store \<Rightarrow> 'a store" where
  "visits g W st = fold (\<lambda>(q, d, y). visit g d y) W st"

definition valid_ref :: "'a store \<Rightarrow> obj_ref \<Rightarrow> bool" where
  "valid_ref st r = (case r of Old a \<Rightarrow> True | New k \<Rightarrow> k < length (new_objs st))"

definition refs_valid :: "'a store \<Rightarrow> bool" where
  "refs_valid st = list_all (valid_ref st) (flatList st)"

definition init_store :: "(nat \<Rightarrow> 'a NodeData) \<Rightarrow> 'a store" where
  "init_store heap = \<lparr>old_objs = heap, new_objs = [], flatList = []\<rparr>"

definition node_ok :: "('a \<Rightarrow> 'a NodeData) \<Rightarrow> nat \<Rightarrow> 'a \<Rightarrow> (nat list \<times> nat \<times> 'a) list \<Rightarrow> bool" where
  "node_ok c d e W \<longleftrightarrow>
     sorted_wrt (<) (map fst W)
     \<and> (\<forall>p. p \<in> fst ` set W \<longleftrightarrow>
            p = [] \<or> (truthy_bool (isExpanded (c e)) \<and> visible c (subs_of (c e)) p))
     \<and> (\<forall>p d' y. (p, d', y) \<in> set W \<longrightarrow>
            d' = d + length p
            \<and> (if p = [] then y = e else elem_at c (subs_of (c e)) p = Some y))"

definition forest_ok :: "('a \<Rightarrow> 'a NodeData) \<Rightarrow> nat \<Rightarrow> nat \<Rightarrow> 'a list \<Rightarrow> (nat list \<times> nat \<times> 'a) list \<Rightarrow> bool" where
  "forest_ok c d i xs W \<longleftrightarrow>
     sorted_wrt (<) (map fst W)
     \<and> (\<forall>p. p \<in> fst ` set W \<longleftrightarrow> (\<exists>j q. p = (i + j) # q \<and> visible c xs (j # q)))
     \<and> (\<forall>p d' y. (p, d', y) \<in> set W \<longrightarrow>
            (\<exists>j q. p = (i + j) # q \<and> d' = d + length q \<and> elem_at c xs (j # q) = Some y))"

section \<open>Auxiliary definition for the proofs about the filtered list\<close>


section \<open>Tree: arrow-key navigation\<close>

lemma findIndex_map: "findIndex (\<lambda>x. P (g x)) xs = findIndex P (map g xs)"
  by (induction xs) (auto simp: findIndex_def list_ex_iff takeWhile_map comp_def)

lemma zip_upt_nth: "zip [0..<length ns] ns = map (\<lambda>i. (i, ns ! i)) [0..<length ns]"
  by (rule nth_equalityI) auto

lemma map_fst_enabled_nodes:
  "map fst (enabled_nodes d) =
     filter (\<lambda>j. \<not> has_disabled_class (tree_nodes d ! j)) [0..<length (tree_nodes d)]"
  by (simp add: enabled_nodes_def zip_upt_nth filter_map comp_def)

lemma find_filter_hd: "List.find P xs = (case filter P xs of [] \<Rightarrow> None | x # _ \<Rightarrow> Some x)"
  by (induction xs) auto

lemma find_snoc: "List.find P (xs @ [x]) = (case List.find P xs of Some y \<Rightarrow> Some y | None \<Rightarrow> if P x then Some x else None)"
  by (induction xs) auto

lemma find_rev_filter_last:
  "List.find P (rev xs) = (if filter P xs = [] then None else Some (last (filter P xs)))"
  by (induction xs rule: rev_induct) auto

lemma findIndex_mid:
  "\<forall>x\<in>set A. \<not> P x \<Longrightarrow> P a \<Longrightarrow> findIndex P (A @ a # B) = int (length A)"
  by (simp add: findIndex_def list_ex_iff) 

lemma upt_split3: "a < n \<Longrightarrow> [0..<n] = [0..<a] @ a # [Suc a..<n]"
  by (metis le_add1 less_imp_add_positive plus_nat.add_0 upt_add_eq_append upt_conv_Cons less_or_eq_imp_le)

lemma focus_newIndex_fst:
  "focus_newIndex nodes k =
     (if 0 \<le> k \<and> k < int (length (map fst nodes)) then [Focus (map fst nodes ! nat k), PreventDefault] else [])"
proof (cases "0 \<le> k \<and> k < int (length nodes)")
  case True
  then have "nat k < length nodes" by linarith
  with True show ?thesis by (simp add: focus_newIndex_def)
next
  case False
  then show ?thesis by (auto simp add: focus_newIndex_def)
qed

lemma handleKeyDown_at_enabled:
  assumes act: "activeElement d = Some a"
    and a: "a < length (tree_nodes d)"
    and en: "\<not> has_disabled_class (tree_nodes d ! a)"
  defines "Q \<equiv> \<lambda>j. \<not> has_disabled_class (tree_nodes d ! j)"
  defines "A \<equiv> filter Q [0..<a]"
  defines "B \<equiv> filter Q [Suc a..<length (tree_nodes d)]"
  shows "map fst (enabled_nodes d) = A @ a # B"
    and "findIndex (\<lambda>(i, n). activeElement d = Some i) (enabled_nodes d) = int (length A)"
    and "js_at (enabled_nodes d) (int (length A)) = Some (enabled_nodes d ! length A)"
    and "fst (enabled_nodes d ! length A) = a"
proof -
  show E: "map fst (enabled_nodes d) = A @ a # B"
    using a en by (simp add: map_fst_enabled_nodes upt_split3 [OF a] A_def B_def Q_def)
  have "findIndex (\<lambda>(i, n). activeElement d = Some i) (enabled_nodes d)
      = findIndex (\<lambda>j. a = j) (map fst (enabled_nodes d))"
    using findIndex_map [of "\<lambda>j. a = j" fst "enabled_nodes d"] by (simp add: act case_prod_unfold)
  also have "\<dots> = int (length A)"
    unfolding E by (rule findIndex_mid) (auto simp: A_def)
  finally show "findIndex (\<lambda>(i, n). activeElement d = Some i) (enabled_nodes d) = int (length A)" .
  have len: "length (enabled_nodes d) = length A + Suc (length B)"
    using arg_cong [OF E, of length] by simp
  then show "js_at (enabled_nodes d) (int (length A)) = Some (enabled_nodes d ! length A)"
    by (simp add: js_at_def)
  have "fst (enabled_nodes d ! length A) = map fst (enabled_nodes d) ! length A"
    using len by simp
  then show "fst (enabled_nodes d ! length A) = a" by (simp add: E)
qed

text \<open>
  What \<open>next_enabled\<close> and \<open>prev_enabled\<close> are: the nearest position after, or before,
  \<open>i\<close> whose node is enabled, every node between being disabled.
\<close>

lemma next_enabled_Some_iff:
  "next_enabled ns i = Some j \<longleftrightarrow>
     i < j \<and> j < length ns \<and> \<not> has_disabled_class (ns ! j)
     \<and> (\<forall>k. i < k \<and> k < j \<longrightarrow> has_disabled_class (ns ! k))"
proof -
  have "next_enabled ns i = Some j \<longleftrightarrow>
     (\<exists>m<length [Suc i..<length ns]. \<not> has_disabled_class (ns ! ([Suc i..<length ns] ! m))
        \<and> j = [Suc i..<length ns] ! m
        \<and> (\<forall>l<m. has_disabled_class (ns ! ([Suc i..<length ns] ! l))))"
    by (simp add: next_enabled_def find_Some_iff)
  also have "\<dots> \<longleftrightarrow> (\<exists>m. Suc i + m < length ns \<and> \<not> has_disabled_class (ns ! (Suc i + m))
        \<and> j = Suc i + m \<and> (\<forall>l<m. has_disabled_class (ns ! (Suc i + l))))"
    by (auto simp: less_diff_conv add.commute)
  also have "\<dots> \<longleftrightarrow> i < j \<and> j < length ns \<and> \<not> has_disabled_class (ns ! j)
     \<and> (\<forall>k. i < k \<and> k < j \<longrightarrow> has_disabled_class (ns ! k))"
  proof
    assume "\<exists>m. Suc i + m < length ns \<and> \<not> has_disabled_class (ns ! (Suc i + m))
        \<and> j = Suc i + m \<and> (\<forall>l<m. has_disabled_class (ns ! (Suc i + l)))"
    then obtain m where m: "Suc i + m < length ns" "\<not> has_disabled_class (ns ! (Suc i + m))"
      "j = Suc i + m" "\<forall>l<m. has_disabled_class (ns ! (Suc i + l))" by blast
    have "has_disabled_class (ns ! k)" if "i < k \<and> k < j" for k
    proof -
      from that m(3) have "k - Suc i < m" "k = Suc i + (k - Suc i)" by auto
      with m(4) show ?thesis by metis
    qed
    with m show "i < j \<and> j < length ns \<and> \<not> has_disabled_class (ns ! j)
     \<and> (\<forall>k. i < k \<and> k < j \<longrightarrow> has_disabled_class (ns ! k))" by auto
  next
    assume a: "i < j \<and> j < length ns \<and> \<not> has_disabled_class (ns ! j)
     \<and> (\<forall>k. i < k \<and> k < j \<longrightarrow> has_disabled_class (ns ! k))"
    then have "Suc i + (j - Suc i) < length ns \<and> \<not> has_disabled_class (ns ! (Suc i + (j - Suc i)))
        \<and> j = Suc i + (j - Suc i) \<and> (\<forall>l<j - Suc i. has_disabled_class (ns ! (Suc i + l)))"
      by auto
    then show "\<exists>m. Suc i + m < length ns \<and> \<not> has_disabled_class (ns ! (Suc i + m))
        \<and> j = Suc i + m \<and> (\<forall>l<m. has_disabled_class (ns ! (Suc i + l)))" by blast
  qed
  finally show ?thesis .
qed

lemma prev_enabled_Some_iff:
  "prev_enabled ns i = Some j \<longleftrightarrow>
     j < i \<and> \<not> has_disabled_class (ns ! j)
     \<and> (\<forall>k. j < k \<and> k < i \<longrightarrow> has_disabled_class (ns ! k))"
proof -
  have "prev_enabled ns i = Some j \<longleftrightarrow>
     (\<exists>m<i. \<not> has_disabled_class (ns ! (rev [0..<i] ! m))
        \<and> j = rev [0..<i] ! m
        \<and> (\<forall>l<m. has_disabled_class (ns ! (rev [0..<i] ! l))))"
    by (simp add: prev_enabled_def find_Some_iff)
  also have "\<dots> \<longleftrightarrow> (\<exists>m<i. \<not> has_disabled_class (ns ! (i - Suc m))
        \<and> j = i - Suc m \<and> (\<forall>l<m. has_disabled_class (ns ! (i - Suc l))))"
    by (auto simp: rev_nth)
  also have "\<dots> \<longleftrightarrow> j < i \<and> \<not> has_disabled_class (ns ! j)
     \<and> (\<forall>k. j < k \<and> k < i \<longrightarrow> has_disabled_class (ns ! k))"
  proof
    assume "\<exists>m<i. \<not> has_disabled_class (ns ! (i - Suc m))
        \<and> j = i - Suc m \<and> (\<forall>l<m. has_disabled_class (ns ! (i - Suc l)))"
    then obtain m where m: "m < i" "\<not> has_disabled_class (ns ! (i - Suc m))"
      "j = i - Suc m" "\<forall>l<m. has_disabled_class (ns ! (i - Suc l))" by blast
    have "has_disabled_class (ns ! k)" if "j < k \<and> k < i" for k
    proof -
      from that m(1,3) have "i - Suc k < m" "k = i - Suc (i - Suc k)" by auto
      with m(4) show ?thesis by metis
    qed
    with m show "j < i \<and> \<not> has_disabled_class (ns ! j)
     \<and> (\<forall>k. j < k \<and> k < i \<longrightarrow> has_disabled_class (ns ! k))" by auto
  next
    assume a: "j < i \<and> \<not> has_disabled_class (ns ! j)
     \<and> (\<forall>k. j < k \<and> k < i \<longrightarrow> has_disabled_class (ns ! k))"
    then have "i - Suc j < i \<and> \<not> has_disabled_class (ns ! (i - Suc (i - Suc j)))
        \<and> j = i - Suc (i - Suc j) \<and> (\<forall>l<i - Suc j. has_disabled_class (ns ! (i - Suc l)))"
      by auto
    then show "\<exists>m<i. \<not> has_disabled_class (ns ! (i - Suc m))
        \<and> j = i - Suc m \<and> (\<forall>l<m. has_disabled_class (ns ! (i - Suc l)))" by blast
  qed
  finally show ?thesis .
qed

text \<open>
  C1. While the focused element is an enabled tree node (position \<open>a\<close> of the tree's
  nodes), ArrowDown calls \<open>focus()\<close> on the next enabled node in document order,
  whatever disabled nodes lie between, and does nothing when there is none; ArrowUp does
  the same with the previous enabled node.
\<close>

theorem handleKeyDown_arrow_navigation:
  assumes act: "activeElement d = Some a"
    and a: "a < length (tree_nodes d)"
    and en: "\<not> has_disabled_class (tree_nodes d ! a)"
  shows "handleKeyDown d ''ArrowDown'' =
           Inr (case next_enabled (tree_nodes d) a of
                  None \<Rightarrow> [] | Some j \<Rightarrow> [Focus j, PreventDefault])
       \<and> handleKeyDown d ''ArrowUp'' =
           Inr (case prev_enabled (tree_nodes d) a of
                  None \<Rightarrow> [] | Some j \<Rightarrow> [Focus j, PreventDefault])"
proof -
  define Q where "Q = (\<lambda>j. \<not> has_disabled_class (tree_nodes d ! j))"
  define A where "A = filter Q [0..<a]"
  define B where "B = filter Q [Suc a..<length (tree_nodes d)]"
  note h = handleKeyDown_at_enabled [OF act a en, folded Q_def, folded A_def B_def]
  have ne: "length (enabled_nodes d) \<noteq> 0"
    using arg_cong [OF h(1), of length] by simp
  have down: "handleKeyDown d ''ArrowDown'' = Inr (focus_newIndex (enabled_nodes d) (int (length A) + 1))"
    using ne by (simp add: handleKeyDown_def Let_def h(2) h(3))
  have up: "handleKeyDown d ''ArrowUp'' = Inr (focus_newIndex (enabled_nodes d) (int (length A) - 1))"
    using ne by (simp add: handleKeyDown_def Let_def h(2) h(3))
  have nx: "next_enabled (tree_nodes d) a = (case B of [] \<Rightarrow> None | x # _ \<Rightarrow> Some x)"
    by (simp add: next_enabled_def find_filter_hd B_def Q_def)
  have pv: "prev_enabled (tree_nodes d) a = (if A = [] then None else Some (last A))"
    by (simp add: prev_enabled_def find_rev_filter_last A_def Q_def)
  have d1: "focus_newIndex (enabled_nodes d) (int (length A) + 1) =
        (case B of [] \<Rightarrow> [] | x # _ \<Rightarrow> [Focus x, PreventDefault])"
    by (cases B) (simp_all add: focus_newIndex_fst h(1) nth_append nat_add_distrib)
  have u1: "focus_newIndex (enabled_nodes d) (int (length A) - 1) =
        (if A = [] then [] else [Focus (last A), PreventDefault])"
  proof (cases "A = []")
    case True
    then show ?thesis by (simp add: focus_newIndex_fst)
  next
    case False
    then have "nat (int (length A) - 1) = length A - 1" "0 \<le> int (length A) - 1"
      by (auto simp: Suc_leI)
    with False show ?thesis
      by (simp add: focus_newIndex_fst h(1) nth_append last_conv_nth)
  qed
  show ?thesis
    unfolding down up d1 u1 nx pv by (auto split: list.splits)
qed

theorem handleKeyDown_arrow_navigation_witness:
  "handleKeyDown \<lparr>tree_nodes = [
       \<lparr>has_disabled_class = False, expander_icon = None, parent_id = ''Node-1'', parent_last_child_owns = None\<rparr>,
       \<lparr>has_disabled_class = True, expander_icon = None, parent_id = ''Node-2'', parent_last_child_owns = None\<rparr>,
       \<lparr>has_disabled_class = False, expander_icon = Some True, parent_id = ''Node-3'', parent_last_child_owns = Some []\<rparr>],
     activeElement = Some 0\<rparr> ''ArrowDown'' = Inr [Focus 2, PreventDefault]
   \<and> handleKeyDown \<lparr>tree_nodes = [
       \<lparr>has_disabled_class = False, expander_icon = None, parent_id = ''Node-1'', parent_last_child_owns = None\<rparr>,
       \<lparr>has_disabled_class = True, expander_icon = None, parent_id = ''Node-2'', parent_last_child_owns = None\<rparr>,
       \<lparr>has_disabled_class = False, expander_icon = Some True, parent_id = ''Node-3'', parent_last_child_owns = Some []\<rparr>],
     activeElement = Some 0\<rparr> ''ArrowUp'' = Inr []"
  using handleKeyDown_arrow_navigation [of "\<lparr>tree_nodes = [
       \<lparr>has_disabled_class = False, expander_icon = None, parent_id = ''Node-1'', parent_last_child_owns = None\<rparr>,
       \<lparr>has_disabled_class = True, expander_icon = None, parent_id = ''Node-2'', parent_last_child_owns = None\<rparr>,
       \<lparr>has_disabled_class = False, expander_icon = Some True, parent_id = ''Node-3'', parent_last_child_owns = Some []\<rparr>],
     activeElement = Some 0\<rparr>" 0]
  by (simp add: next_enabled_def prev_enabled_def upt_conv_Cons)

section \<open>Run-time errors\<close>

lemma handleKeyDown_focus_outside:
  assumes "enabled_nodes d \<noteq> []"
    and "\<forall>p \<in> set (enabled_nodes d). activeElement d \<noteq> Some (fst p)"
  shows "handleKeyDown d key = Inl TypeError"
proof -
  have "\<not> list_ex (\<lambda>(i, n). activeElement d = Some i) (enabled_nodes d)"
    using assms(2) by (auto simp: list_ex_iff)
  then have "findIndex (\<lambda>(i, n). activeElement d = Some i) (enabled_nodes d) = - 1"
    by (simp add: findIndex_def)
  then show ?thesis
    using assms(1) by (simp add: handleKeyDown_def Let_def js_at_def)
qed

lemma first_render_reads_uninitialised_const:
  "(first_render :: js_error + 'v cb_state) = Inl ReferenceError"
  by (simp add: first_render_def focusedIndex_initializer_def read_const_def empty_scope_def)

text \<open>
  C3. The claim that no handler raises fails on the Tree: with a key event while the
  focused element is not an enabled tree node (here: one enabled node, the focus
  elsewhere), \<open>findIndex\<close> gives \<open>-1\<close>, \<open>nodes[-1]\<close> is \<open>undefined\<close>, and \<open>handleKeyDown\<close>
  raises a TypeError at \<open>.querySelector\<close>, whatever the key.
\<close>

theorem handleKeyDown_raises_when_focus_is_elsewhere:
  "handleKeyDown
     \<lparr>tree_nodes =
        [\<lparr>has_disabled_class = False, expander_icon = None, parent_id = ''Node-1'',
          parent_last_child_owns = None\<rparr>],
      activeElement = None\<rparr> ''ArrowDown'' = Inl TypeError"
  by (simp add: handleKeyDown_def enabled_nodes_def findIndex_def js_at_def Let_def)

section \<open>ComboBox: arrow keys\<close>


















section \<open>ComboBox: the commits after an event come to an end\<close>


lemma apply_actions_Nil [simp]: "apply_actions [] s = s"
  by (simp add: apply_actions_def)











text \<open>When no dependency of an effect has changed, a commit queues nothing.\<close>

lemma selected_option_upd [simp]:
  "selected_option (s\<lparr>inputValue := t\<rparr>) = selected_option s"
  "selected_option (s\<lparr>filteredOptions := fo\<rparr>) = selected_option s"
  "selected_option (s\<lparr>focusedIndex := f\<rparr>) = selected_option s"
  "selected_option (s\<lparr>isOpen := b\<rparr>) = selected_option s"
  by (simp_all add: selected_option_def split: option.splits)


lemma run_effects_closed:
  "\<not> isOpen cur \<Longrightarrow> \<not> isOpen prev \<Longrightarrow> selectedValueId cur = selectedValueId prev \<Longrightarrow>
   extendedOriginalOptions cur = extendedOriginalOptions prev \<Longrightarrow>
   run_effects p prev cur = []"
  by (simp add: run_effects_def effect_filter_def)

lemma settle_more_fuel:
  "settle n p a b = Some s \<Longrightarrow> settle (n + k) p a b = Some s"
  by (induction n p a b rule: settle.induct) (auto split: if_splits)




section \<open>ComboBox: typing filters the options\<close>



















text \<open>
  The upper-case letters above \<open>U+007F\<close> are lowered as well: a label that begins
  with the letter at \<open>U+00C9\<close> contains the typed letter at \<open>U+00E9\<close>.
\<close>

lemma toLowerCase_Latin1:
  "toLowerCase (char_of (201 :: nat) # ''clair'') = char_of (233 :: nat) # ''clair''
   \<and> js_includes (toLowerCase (char_of (201 :: nat) # ''clair''))
         (toLowerCase (trim [char_of (233 :: nat)]))"
  by code_simp

section \<open>ComboBox: selecting an option\<close>

lemma selection_settles:
  assumes op: "isOpen s"
    and reg: "i \<noteq> []" "optionsMap s i = Some opt"
    and s1: "apply_actions acts s = s\<lparr>selectedValueId := Some i, isOpen := False\<rparr>"
  shows "dispatch (Suc (Suc n)) p s acts =
           Some (s\<lparr>selectedValueId := Some i, isOpen := False,
                   focusedIndex := Some opt, inputValue := label opt\<rparr>)"
proof -
  define s1 where "s1 = s\<lparr>selectedValueId := Some i, isOpen := False\<rparr>"
  define s2 where "s2 = s\<lparr>selectedValueId := Some i, isOpen := False,
                   focusedIndex := Some opt, inputValue := label opt\<rparr>"
  have sel: "selected_option s1 = Some opt"
    using reg by (simp add: s1_def selected_option_def)
  have hide: "onHide s1 = [SetFocusedIndex (Some opt), SetInputValue (label opt)]"
    by (simp add: onHide_def sel)
  have filt: "effect_filter p s1 = []" by (simp add: effect_filter_def s1_def)
  have eff: "run_effects p s s1 =
      onHide s1 @ (if selectedValueId s \<noteq> Some i then effect_selectedChanged s1 else [])"
    using op by (simp add: run_effects_def filt) (simp add: s1_def)
  have ne: "run_effects p s s1 \<noteq> []" by (simp add: eff hide)
  have app: "apply_actions (run_effects p s s1) s1 = s2"
    by (simp add: eff hide effect_selectedChanged_def sel apply_actions_def) (simp add: s1_def s2_def)
  have stable: "run_effects p s1 s2 = []"
    by (rule run_effects_closed) (simp_all add: s1_def s2_def)
  have "settle (Suc (Suc n)) p s s1 = Some s2"
    using ne app stable by simp
  then show ?thesis
    unfolding dispatch_def s1 by (simp add: s1_def s2_def)
qed

text \<open>
  When the mapped options have pairwise distinct ids, the options map that \<open>mapOptions\<close>
  builds holds each of them under its id.
\<close>

lemma newOptionsMap_snoc:
  "newOptionsMap (eos @ [eo]) =
     (case opt_id eo of None \<Rightarrow> (newOptionsMap eos)(''undefined'' \<mapsto> eo)
                      | Some i \<Rightarrow> (newOptionsMap eos)(i \<mapsto> eo))"
  by (simp add: newOptionsMap_def split: option.splits)

lemma newOptionsMap_holds_each_option:
  assumes "distinct (map opt_id eos)" and "\<forall>eo\<in>set eos. opt_id eo \<noteq> None"
    and "eo \<in> set eos" and "opt_id eo = Some i"
  shows "newOptionsMap eos i = Some eo"
  using assms
proof (induction eos rule: rev_induct)
  case Nil
  then show ?case by simp
next
  case (snoc x xs)
  from snoc.prems(2) obtain j where j: "opt_id x = Some j" by auto
  show ?case
  proof (cases "eo = x")
    case True
    with j snoc.prems(4) show ?thesis by (simp add: newOptionsMap_snoc)
  next
    case False
    with snoc.prems(3) have in_xs: "eo \<in> set xs" by simp
    from snoc.prems(1) have d: "distinct (map opt_id xs)" and nx: "opt_id x \<notin> opt_id ` set xs"
      by simp_all
    from nx in_xs snoc.prems(4) j have "j \<noteq> i" by force
    moreover have "newOptionsMap xs i = Some eo"
      using snoc.IH [OF d _ in_xs snoc.prems(4)] snoc.prems(2) by simp
    ultimately show ?thesis by (simp add: newOptionsMap_snoc j)
  qed
qed

lemma newOptions_nth:
  "j < length opts \<Longrightarrow> newOptions cid opts ! j = extend_option cid j (opts ! j)"
  by (simp add: newOptions_def)

lemma newOptions_length [simp]: "length (newOptions cid opts) = length opts"
  by (simp add: newOptions_def)

lemma jsxItems_length [simp]: "length (jsxItems cid opts) = length opts"
  by (simp add: jsxItems_def)

text \<open>
  In a state whose map and memoized items are those that \<open>mapOptions\<close> builds from
  options with pairwise distinct ids, the item rendered at a position of the filtered
  list is the item of the option at that position: it shows that option's label, is
  disabled as that option is, and its \<open>onClick\<close> passes that option's id, under which
  the map holds that option.
\<close>

lemma rendered_item_of_listed_option:
  assumes m: "optionsMap s = newOptionsMap (newOptions cid opts)"
      "memoizedItems s = jsxItems cid opts"
    and d: "distinct (map opt_id (newOptions cid opts))"
    and k: "k < length (filteredOptions s)" "filteredOptions s ! k \<in> set (newOptions cid opts)"
  shows "\<exists>item i. getSingleMenuItem s k = Inr (Some item)
           \<and> item_label item = label (filteredOptions s ! k)
           \<and> item_disabled item = disabled (filteredOptions s ! k)
           \<and> click_id item = Some i \<and> opt_id (filteredOptions s ! k) = Some i
           \<and> optionsMap s i = Some (filteredOptions s ! k)"
proof -
  define fo where "fo = filteredOptions s ! k"
  from k(2) obtain j where j: "j < length opts" and foj: "fo = newOptions cid opts ! j"
    unfolding fo_def in_set_conv_nth by auto
  define i where "i = (case opt_id (opts ! j) of None \<Rightarrow> cid @ ''-option'' @ show_nat j | Some x \<Rightarrow> x)"
  have fo: "fo = extend_option cid j (opts ! j)" by (simp add: foj newOptions_nth j)
  have id: "opt_id fo = Some i" and ix: "index fo = Some j"
    by (simp_all add: fo extend_option_def i_def)
  have all: "\<forall>eo\<in>set (newOptions cid opts). opt_id eo \<noteq> None"
    by (auto simp: newOptions_def extend_option_def)
  have held: "optionsMap s i = Some fo"
    unfolding m(1) using d all k(2) id unfolding fo_def by (rule newOptionsMap_holds_each_option)
  define memo where "memo = jsxItems cid opts ! j"
  have memo: "item_label memo = label fo" "item_disabled memo = disabled fo" "click_id memo = Some i"
    using j id by (simp_all add: memo_def jsxItems_def foj)
  define sel where "sel \<longleftrightarrow> selectedValueId s = Some i"
  define foc where "foc \<longleftrightarrow> (case focusedIndex s of None \<Rightarrow> None | Some f \<Rightarrow> opt_id f) = Some i"
  have g: "getSingleMenuItem s k =
      (if sel \<or> foc
       then Inr (Some (memo\<lparr>item_isSelected := sel, item_isFocused := foc, item_value := val fo,
                            click_id := Some i, click_value := val fo\<rparr>))
       else Inr (Some memo))"
    using k(1) j
    by (simp add: getSingleMenuItem_def Let_def fo_def [symmetric] id held ix m(2) memo_def
        sel_def foc_def)
  show ?thesis
  proof (cases "sel \<or> foc")
    case True
    with g memo id held show ?thesis unfolding fo_def by simp
  next
    case False
    with g memo id held show ?thesis unfolding fo_def by simp
  qed
qed

text \<open>The calls of a click on a rendered item that is not disabled, and of Enter.\<close>

lemma click_calls:
  assumes "isOpen s" "getSingleMenuItem s k = Inr (Some item)"
    "\<not> truthy_bool (item_disabled item)" "click_id item = Some i"
  shows "apply_actions (handler_calls s (ItemClick k)) s
           = s\<lparr>selectedValueId := Some i, isOpen := False\<rparr>"
  using assms by (simp add: handler_calls_def click_item_def apply_actions_def)

lemma enter_calls:
  assumes "isOpen s" "focusedIndex s = Some opt" "opt_id opt = Some i"
  shows "apply_actions (handler_calls s (InputKeyDown ''Enter'')) s
           = s\<lparr>selectedValueId := Some i, isOpen := False\<rparr>"
  using assms by (simp add: handler_calls_def onKeyDown_def apply_actions_def)

text \<open>
  So in such a state a click on the item at a position of the filtered list, when the
  option there is not disabled and its id is not empty, closes the dropdown and leaves
  that option's label in the input and that option focused.
\<close>

lemma click_selects_listed_option:
  assumes op: "isOpen s"
    and m: "optionsMap s = newOptionsMap (newOptions cid opts)"
      "memoizedItems s = jsxItems cid opts"
    and d: "distinct (map opt_id (newOptions cid opts))"
    and k: "k < length (filteredOptions s)" "filteredOptions s ! k \<in> set (newOptions cid opts)"
    and en: "\<not> truthy_bool (disabled (filteredOptions s ! k))"
    and ne: "opt_id (filteredOptions s ! k) \<noteq> Some []"
  shows "\<exists>s'. run_events (2 + n) p s [ItemClick k] = Some s'
           \<and> \<not> isOpen s' \<and> inputValue s' = label (filteredOptions s ! k)
           \<and> focusedIndex s' = Some (filteredOptions s ! k)"
proof -
  from rendered_item_of_listed_option [OF m d k]
  obtain item i where g: "getSingleMenuItem s k = Inr (Some item)"
    and dis: "item_disabled item = disabled (filteredOptions s ! k)"
    and ci: "click_id item = Some i" and id: "opt_id (filteredOptions s ! k) = Some i"
    and held: "optionsMap s i = Some (filteredOptions s ! k)"
    by blast
  from ne id have i: "i \<noteq> []" by simp
  from en dis have nd: "\<not> truthy_bool (item_disabled item)" by simp
  from selection_settles [OF op i held click_calls [OF op g nd ci], of n p]
  show ?thesis by simp
qed

text \<open>
  C6, as amended. The dropdown is open, and the user clicks an item that is rendered
  and not disabled, or presses Enter with an option focused. The options map holds an
  option under the id that the handler sets as the selected id, the id is not the empty
  string, and for Enter that option is the focused one. Then the dropdown is closed,
  the input's text is the label of that option, and that option is the focused one.
\<close>

theorem selecting_closes_and_syncs_view_state:
  assumes op: "isOpen s"
    and reg: "i \<noteq> []" "optionsMap s i = Some opt"
    and how: "(getSingleMenuItem s k = Inr (Some item) \<and> \<not> truthy_bool (item_disabled item)
                 \<and> click_id item = Some i \<and> ev = ItemClick k)
              \<or> (focusedIndex s = Some opt \<and> opt_id opt = Some i \<and> ev = InputKeyDown ''Enter'')"
  shows "\<exists>s'. run_events (2 + n) p s [ev] = Some s'
           \<and> \<not> isOpen s' \<and> selectedValueId s' = Some i
           \<and> inputValue s' = label opt \<and> focusedIndex s' = Some opt"
proof -
  have "apply_actions (handler_calls s ev) s = s\<lparr>selectedValueId := Some i, isOpen := False\<rparr>"
    using how
  proof
    assume "getSingleMenuItem s k = Inr (Some item) \<and> \<not> truthy_bool (item_disabled item)
                 \<and> click_id item = Some i \<and> ev = ItemClick k"
    then show ?thesis using click_calls [OF op, of k item i] by simp
  next
    assume "focusedIndex s = Some opt \<and> opt_id opt = Some i \<and> ev = InputKeyDown ''Enter''"
    then show ?thesis using enter_calls [OF op, of opt i] by simp
  qed
  from selection_settles [OF op reg this, of n p] show ?thesis by simp
qed

theorem selecting_closes_and_syncs_view_state_witness:
  "isOpen ex_state
   \<and> optionsMap ex_state ''cb-option2'' = Some (newOptions ''cb'' ex_options ! 2)
   \<and> getSingleMenuItem ex_state 2 = Inr (Some (jsxItems ''cb'' ex_options ! 2))
   \<and> \<not> truthy_bool (item_disabled (jsxItems ''cb'' ex_options ! 2))
   \<and> click_id (jsxItems ''cb'' ex_options ! 2) = Some ''cb-option2''
   \<and> (\<exists>s'. run_events 2 ex_props ex_state [ItemClick 2] = Some s'
          \<and> \<not> isOpen s' \<and> selectedValueId s' = Some ''cb-option2''
          \<and> inputValue s' = ''Cherry''
          \<and> focusedIndex s' = Some (newOptions ''cb'' ex_options ! 2))
   \<and> (\<exists>s'. run_events 2 ex_props
               (ex_state\<lparr>focusedIndex := Some (newOptions ''cb'' ex_options ! 2)\<rparr>)
               [InputKeyDown ''Enter''] = Some s'
          \<and> \<not> isOpen s' \<and> selectedValueId s' = Some ''cb-option2''
          \<and> inputValue s' = ''Cherry''
          \<and> focusedIndex s' = Some (newOptions ''cb'' ex_options ! 2))"
proof -
  define cherry where "cherry = newOptions ''cb'' ex_options ! 2"
  define focused where "focused = ex_state\<lparr>focusedIndex := Some cherry\<rparr>"
  have h1: "isOpen ex_state" by (simp add: ex_state_def)
  have h3: "''cb-option2'' \<noteq> []" by simp
  have h4: "optionsMap ex_state ''cb-option2'' = Some cherry"
    unfolding cherry_def by code_simp
  have h5: "getSingleMenuItem ex_state 2 = Inr (Some (jsxItems ''cb'' ex_options ! 2))"
    by code_simp
  have h6: "\<not> truthy_bool (item_disabled (jsxItems ''cb'' ex_options ! 2))" by code_simp
  have h7: "click_id (jsxItems ''cb'' ex_options ! 2) = Some ''cb-option2''" by code_simp
  have l: "label cherry = ''Cherry''" unfolding cherry_def by code_simp
  have g1: "isOpen focused" by (simp add: focused_def ex_state_def)
  have g4: "optionsMap focused ''cb-option2'' = Some cherry"
    using h4 by (simp add: focused_def)
  have g5: "focusedIndex focused = Some cherry" by (simp add: focused_def)
  have g6: "opt_id cherry = Some ''cb-option2''" unfolding cherry_def by code_simp
  have how1: "(getSingleMenuItem ex_state 2 = Inr (Some (jsxItems ''cb'' ex_options ! 2))
        \<and> \<not> truthy_bool (item_disabled (jsxItems ''cb'' ex_options ! 2))
        \<and> click_id (jsxItems ''cb'' ex_options ! 2) = Some ''cb-option2''
        \<and> ItemClick 2 = ItemClick 2)
      \<or> (focusedIndex ex_state = Some cherry \<and> opt_id cherry = Some ''cb-option2''
          \<and> ItemClick 2 = InputKeyDown ''Enter'')"
    by (simp add: h5 h6 h7)
  have how2: "(getSingleMenuItem focused 0 = Inr (Some (jsxItems ''cb'' ex_options ! 2))
        \<and> \<not> truthy_bool (item_disabled (jsxItems ''cb'' ex_options ! 2))
        \<and> click_id (jsxItems ''cb'' ex_options ! 2) = Some ''cb-option2''
        \<and> InputKeyDown ''Enter'' = ItemClick 0)
      \<or> (focusedIndex focused = Some cherry \<and> opt_id cherry = Some ''cb-option2''
          \<and> InputKeyDown ''Enter'' = InputKeyDown ''Enter'')"
    by (simp add: g5 g6)
  have click: "\<exists>s'. run_events (2 + 0) ex_props ex_state [ItemClick 2] = Some s'
           \<and> \<not> isOpen s' \<and> selectedValueId s' = Some ''cb-option2''
           \<and> inputValue s' = label cherry \<and> focusedIndex s' = Some cherry"
    by (rule selecting_closes_and_syncs_view_state [OF h1 h3 h4 how1])
  have enter: "\<exists>s'. run_events (2 + 0) ex_props focused [InputKeyDown ''Enter''] = Some s'
           \<and> \<not> isOpen s' \<and> selectedValueId s' = Some ''cb-option2''
           \<and> inputValue s' = label cherry \<and> focusedIndex s' = Some cherry"
    by (rule selecting_closes_and_syncs_view_state [OF g1 h3 g4 how2])
  from click enter h1 h4 h5 h6 h7 l show ?thesis
    unfolding cherry_def [symmetric] focused_def [symmetric] by simp
qed

text \<open>
  C6 as stated fails in two ways. When two options share an id, the map keeps the last
  of them: ArrowDown focuses \<open>A\<close>, Enter reports the value of \<open>A\<close> to the user's
  \<open>onChange\<close>, and the input shows the label of \<open>B\<close>, with \<open>B\<close> focused. When the id of an
  option is the empty string, a click on its item closes the dropdown, and the input
  stays empty with no option focused.
\<close>

theorem selecting_shared_or_empty_id_counterexample:
  "map_option (\<lambda>s1. (map_option label (focusedIndex s1), onKeyDown s1 ''Enter''))
     (run_events 4 ex_dup_props ex_dup_state [InputKeyDown ''ArrowDown''])
     = Some (Some ''A'', [SetSelectedValueId (Some ''x''), UserOnChange 1, ToggleIsOpen,
                          EventPreventDefault, EventStopPropagation])
   \<and> map_option (\<lambda>s'. (isOpen s', inputValue s', map_option label (focusedIndex s')))
       (run_events 4 ex_dup_props ex_dup_state [InputKeyDown ''ArrowDown'', InputKeyDown ''Enter''])
     = Some (False, ''B'', Some ''B'')
   \<and> map_option (\<lambda>s'. (isOpen s', inputValue s', map_option label (focusedIndex s')))
       (run_events 4 ex_empty_id_props ex_empty_id_state [ItemClick 0])
     = Some (False, [], None)
   \<and> map label (filteredOptions ex_empty_id_state) = [''A'']"
  by code_simp

text \<open>
  A click on the item of a disabled option selects nothing: no handler is called, and
  the dropdown stays open.
\<close>

lemma click_on_disabled_item:
  "handler_calls ex_state (ItemClick 1) = []
   \<and> map_option (\<lambda>s'. (isOpen s', inputValue s', map_option label (focusedIndex s')))
       (run_events 4 ex_props ex_state [ItemClick 1])
     = Some (True, [], None)
   \<and> map (\<lambda>opt. (label opt, disabled opt)) (filteredOptions ex_state)
     = [(''Apple'', None), (''Banana'', Some True), (''Cherry'', None)]"
  by code_simp



section \<open>Rendered roles and ARIA attributes\<close>

lemma jsx_prop_skip:
  assumes "k \<notin> fst ` set B"
  shows "jsx_prop (A @ B @ C) k = jsx_prop (A @ C) k"
proof -
  have "map_of (rev B) k = None"
    using assms by (simp add: map_of_eq_None_iff)
  then have "map_of (rev (A @ B @ C)) k = map_of (rev (A @ C)) k"
    by (simp add: map_add_def split: option.splits)
  then show ?thesis by (simp only: jsx_prop_def)
qed

lemma jsx_prop_skip_end:
  "k \<notin> fst ` set B \<Longrightarrow> jsx_prop (A @ B) k = jsx_prop A k"
  using jsx_prop_skip [of k B A "[]"] by simp

text \<open>
  C5, as amended. When \<open>inputProps\<close> sets neither \<open>role\<close> nor \<open>aria-controls\<close> and the
  list is not virtualized, the ComboBox's input gets \<open>role="combobox"\<close>, and
  \<open>aria-controls\<close> with the list's id exactly when the dropdown is open; when the
  remaining props of the Tree and of the TreeNode set neither \<open>role\<close> nor
  \<open>aria-expanded\<close>, the Tree's list gets \<open>role="tree"\<close>, and the TreeNode's item
  \<open>role="treeitem"\<close> and \<open>aria-expanded\<close> equal to \<open>isExpanded\<close>, false when omitted.
\<close>

theorem rendered_roles_and_aria:
  assumes "''role'' \<notin> fst ` set (inputProps p)"
    and "''aria-controls'' \<notin> fst ` set (inputProps p)"
    and "\<not> virtualized p"
    and "''role'' \<notin> fst ` set tree_rest"
    and "''role'' \<notin> fst ` set node_rest"
    and "''aria-expanded'' \<notin> fst ` set node_rest"
  shows "jsx_prop (ComboBox_Input_props cid p s) ''role'' = PStr ''combobox''
       \<and> jsx_prop (ComboBox_Input_props cid p s) ''aria-controls''
            = (if isOpen s then PStr (Menu_id cid p) else PUndefined)
       \<and> jsx_prop (Tree_ul_props className tree_rest) ''role'' = PStr ''tree''
       \<and> jsx_prop (TreeNode_li_props nid ex dis node_rest) ''role'' = PStr ''treeitem''
       \<and> jsx_prop (TreeNode_li_props nid ex dis node_rest) ''aria-expanded''
            = PBool (case ex of None \<Rightarrow> False | Some b \<Rightarrow> b)"
proof -
  have 1: "jsx_prop (ComboBox_Input_props cid p s) ''role'' = PStr ''combobox''"
    unfolding ComboBox_Input_props_def jsx_prop_skip [OF assms(1)]
    by (simp add: jsx_prop_def)
  have 2: "jsx_prop (ComboBox_Input_props cid p s) ''aria-controls''
            = (if isOpen s then PStr (Menu_id cid p) else PUndefined)"
    unfolding ComboBox_Input_props_def jsx_prop_skip [OF assms(2)]
    using assms(3) by (simp add: jsx_prop_def Menu_id_def)
  have 3: "jsx_prop (Tree_ul_props className tree_rest) ''role'' = PStr ''tree''"
    unfolding Tree_ul_props_def jsx_prop_skip_end [OF assms(4)]
    by (simp add: jsx_prop_def)
  have 4: "jsx_prop (TreeNode_li_props nid ex dis node_rest) ''role'' = PStr ''treeitem''"
    unfolding TreeNode_li_props_def jsx_prop_skip_end [OF assms(5)]
    by (simp add: jsx_prop_def)
  have 5: "jsx_prop (TreeNode_li_props nid ex dis node_rest) ''aria-expanded''
            = PBool (case ex of None \<Rightarrow> False | Some b \<Rightarrow> b)"
    unfolding TreeNode_li_props_def jsx_prop_skip_end [OF assms(6)]
    by (simp add: jsx_prop_def)
  from 1 2 3 4 5 show ?thesis by blast
qed

theorem rendered_roles_and_aria_witness:
  "jsx_prop (ComboBox_Input_props ''cb'' ex_props ex_state) ''role'' = PStr ''combobox''
   \<and> jsx_prop (ComboBox_Input_props ''cb'' ex_props ex_state) ''aria-controls'' = PStr ''cb-list''
   \<and> jsx_prop (Tree_ul_props None [(''id'', PStr ''t'')]) ''role'' = PStr ''tree''
   \<and> jsx_prop (TreeNode_li_props ''Node-1'' None None []) ''role'' = PStr ''treeitem''
   \<and> jsx_prop (TreeNode_li_props ''Node-1'' None None []) ''aria-expanded'' = PBool False"
proof -
  have h: "''role'' \<notin> fst ` set (inputProps ex_props)"
    "''aria-controls'' \<notin> fst ` set (inputProps ex_props)"
    "\<not> virtualized ex_props"
    "''role'' \<notin> fst ` set [(''id'', PStr ''t'')]"
    "''role'' \<notin> fst ` set ([] :: (string \<times> prop_val) list)"
    "''aria-expanded'' \<notin> fst ` set ([] :: (string \<times> prop_val) list)"
    by (simp_all add: ex_props_def virtualized_def)
  have o: "isOpen ex_state" by (simp add: ex_state_def)
  from rendered_roles_and_aria [OF h, of "''cb''" ex_state None "''Node-1''" None None]
  show ?thesis using o h(3) by (simp add: Menu_id_def)
qed

text \<open>
  C5 as stated fails when \<open>inputProps\<close> carries a \<open>role\<close>: the spread comes after the
  ComboBox's own attributes and replaces them.
\<close>

theorem inputProps_role_counterexample:
  "jsx_prop (ComboBox_Input_props ''cb'' ex_props_role ex_state) ''role'' = PStr ''searchbox''"
  by code_simp

text \<open>
  With virtualization the list's id is not the value of \<open>aria-controls\<close>: the \<open>-list\<close>
  suffix is added twice.
\<close>

lemma virtualized_list_id_differs:
  "virtualized p \<Longrightarrow> Menu_id cid p \<noteq> cid @ ''-list''"
  by (simp add: Menu_id_def)

section \<open>ComboBox: the empty state\<close>

lemma menuItems_empty_state:
  "filteredOptions s = [] \<Longrightarrow> menuItems p s = Inr [Some (MenuExtraContent (emptyStateMessage_of p))]"
  by (simp add: menuItems_def)

lemma emptyStateMessage_default:
  "emptyStateMessage p = None \<Longrightarrow> emptyStateMessage_of p = ''No options found''"
  by (simp add: emptyStateMessage_of_def)

text \<open>
  Without virtualization an empty filtered list renders the empty-state entry and
  nothing else.
\<close>

lemma empty_state_entry_without_virtualization:
  "filteredOptions s = [] \<Longrightarrow> \<not> virtualized p \<Longrightarrow>
   rendered_dropdown window cid p s
     = Inr [Some (MenuExtraContent (emptyStateMessage_of p))]"
  by (simp add: rendered_dropdown_def dropdown_content_def menuItems_def rendered_children_def)

text \<open>
  C10. With \<open>enableVirtualization\<close> and an empty filtered list, the dropdown is the
  \<open>VirtualComboboxMenu\<close> with \<open>itemsLength\<close> 0, a list of no items: whatever window the
  list shows, \<open>virtualizedItemRenderer\<close>, which holds the empty-state entry, is asked
  for no index, and nothing is rendered.
\<close>

theorem virtualized_menu_renders_no_empty_state:
  "filteredOptions ex_state_no_match = [] \<and> virtualized ex_props_virtual
   \<and> rendered_dropdown window ''cb'' ex_props_virtual ex_state_no_match = Inr []"
  by (simp add: ex_state_no_match_def rendered_dropdown_def dropdown_content_def menuItems_def
      ex_props_virtual_def virtualized_def rendered_children_def)

section \<open>Tree: what the flattened list holds\<close>

lemma same_but_depth_refl [simp]: "same_but_depth x x"
  by (simp add: same_but_depth_def)

lemma same_but_depth_upd [simp]: "same_but_depth (x\<lparr>depth := v\<rparr>) y = same_but_depth x y"
  by (simp add: same_but_depth_def)

lemma same_but_depth_fields:
  "same_but_depth x y \<Longrightarrow> isExpanded x = isExpanded y \<and> subNodes x = subNodes y"
  by (cases x; cases y) (simp add: same_but_depth_def)

lemma visit_flatList:
  "flatList (visit g d e st) = flatList st @ [visit_ref g e st]"
  by (simp add: visit_def visit_ref_def call_getNode_def push_def set_depth_def split: returned.splits)

lemma visit_deref_new:
  "agrees heap st \<Longrightarrow>
   deref (visit g d e st) (visit_ref g e st) = (deref (visit g d e st) (visit_ref g e st))\<lparr>depth := Some d\<rparr>
   \<and> same_but_depth (deref (visit g d e st) (visit_ref g e st)) (node_content g heap e)"
  by (auto simp add: visit_def visit_ref_def call_getNode_def push_def set_depth_def deref_def
      node_content_def agrees_def split: returned.splits)

lemma visit_agrees: "agrees heap st \<Longrightarrow> agrees heap (visit g d e st)"
  by (auto simp add: visit_def call_getNode_def push_def set_depth_def agrees_def split: returned.splits)

lemma addSubNodes_Suc:
  "addSubNodes (Suc n) g e d st =
     (let st2 = visit g d e st; flatNode = deref st2 (visit_ref g e st) in
      if truthy_bool (isExpanded flatNode)
      then forEach (\<lambda>subNode. addSubNodes n g subNode (d + 1)) (subs_of flatNode) st2
      else Some st2)"
  by (simp add: visit_def visit_ref_def Let_def subs_of_def split: prod.splits option.splits)

lemma visits_simps [simp]:
  "visits g [] st = st"
  "visits g ((q, d, y) # W) st = visits g W (visit g d y st)"
  "visits g (W @ W') st = visits g W' (visits g W st)"
  "visits g (shift_paths i W) st = visits g W st"
  by (simp_all add: visits_def shift_paths_def fold_map comp_def case_prod_unfold)

lemma visits_agrees: "agrees heap st \<Longrightarrow> agrees heap (visits g W st)"
  by (induction W arbitrary: st) (auto simp: visit_agrees)

lemma forEach_simulates:
  assumes node: "\<And>x st. agrees heap st \<Longrightarrow>
      addSubNodes n g x d st = map_option (\<lambda>W. visits g W st) (walk_node n (node_content g heap) d x)"
  shows "agrees heap st \<Longrightarrow>
     forEach (\<lambda>x. addSubNodes n g x d) xs st
       = map_option (\<lambda>W. visits g W st) (walk_forest n (node_content g heap) d i xs)"
proof (induction xs arbitrary: st i)
  case Nil
  then show ?case by simp
next
  case (Cons x xs)
  show ?case
  proof (cases "walk_node n (node_content g heap) d x")
    case None
    then show ?thesis using node [OF Cons.prems, of x] by simp
  next
    case (Some W)
    then have a: "addSubNodes n g x d st = Some (visits g W st)"
      using node [OF Cons.prems, of x] by simp
    have ag: "agrees heap (visits g W st)" by (rule visits_agrees [OF Cons.prems])
    show ?thesis
      using Cons.IH [OF ag, of "Suc i"] by (simp add: a Some split: option.splits)
  qed
qed

lemma addSubNodes_simulates:
  "agrees heap st \<Longrightarrow>
     addSubNodes n g e d st = map_option (\<lambda>W. visits g W st) (walk_node n (node_content g heap) d e)"
proof (induction n arbitrary: e d st)
  case 0
  then show ?case by simp
next
  case (Suc n)
  let ?st2 = "visit g d e st"
  let ?c = "node_content g heap"
  have ag: "agrees heap ?st2" by (rule visit_agrees [OF Suc.prems])
  have f: "isExpanded (deref ?st2 (visit_ref g e st)) = isExpanded (?c e)"
      "subs_of (deref ?st2 (visit_ref g e st)) = subs_of (?c e)"
    using same_but_depth_fields [OF conjunct2 [OF visit_deref_new [OF Suc.prems, of g d e]]]
    by (simp_all add: subs_of_def)
  have fe: "forEach (\<lambda>x. addSubNodes n g x (Suc d)) (subs_of (?c e)) ?st2
       = map_option (\<lambda>W. visits g W ?st2) (walk_forest n ?c (Suc d) 0 (subs_of (?c e)))"
    by (rule forEach_simulates [OF Suc.IH ag])
  show ?case
    unfolding addSubNodes_Suc Let_def f
    by (simp add: fe option.map_comp comp_def del: addSubNodes.simps)
qed

lemma flatNodesList_simulates:
  "flatNodesList n g data heap =
     map_option (\<lambda>W. visits g W \<lparr>old_objs = heap, new_objs = [], flatList = []\<rparr>)
       (walk_forest n (node_content g heap) 0 0 data)"
  unfolding flatNodesList_def
  by (rule forEach_simulates [OF addSubNodes_simulates]) (simp_all add: agrees_def)

lemma visits_snoc: "visits g (W @ [(q, d, y)]) st = visit g d y (visits g W st)"
  by simp

lemma visit_valid_ref: "valid_ref st r \<Longrightarrow> valid_ref (visit g d e st) r"
  by (auto simp: valid_ref_def visit_def call_getNode_def push_def set_depth_def
      split: returned.splits obj_ref.splits)

lemma visit_ref_valid: "valid_ref (visit g d e st) (visit_ref g e st)"
  by (auto simp: valid_ref_def visit_ref_def visit_def call_getNode_def push_def set_depth_def
      split: returned.splits obj_ref.splits)

lemma visit_refs_valid: "refs_valid st \<Longrightarrow> refs_valid (visit g d e st)"
  by (auto simp: refs_valid_def visit_flatList list_all_iff visit_valid_ref visit_ref_valid)

lemma visits_refs_valid: "refs_valid st \<Longrightarrow> refs_valid (visits g W st)"
  by (induction W arbitrary: st) (auto simp: visit_refs_valid)

lemma visit_deref_other:
  "valid_ref st r \<Longrightarrow> r \<noteq> visit_ref g e st \<Longrightarrow> deref (visit g d e st) r = deref st r"
  by (auto simp: valid_ref_def visit_ref_def visit_def call_getNode_def push_def set_depth_def
      deref_def nth_append split: returned.splits obj_ref.splits)

lemma visit_deref_same_but_depth:
  "valid_ref st r \<Longrightarrow> same_but_depth (deref (visit g d e st) r) (deref st r)"
  by (auto simp: valid_ref_def visit_def call_getNode_def push_def set_depth_def
      deref_def nth_append split: returned.splits obj_ref.splits)

lemma visit_depth_new: "depth (deref (visit g d e st) (visit_ref g e st)) = Some d"
  by (auto simp: visit_ref_def visit_def call_getNode_def push_def set_depth_def
      deref_def split: returned.splits)

lemma visit_old_objs_other:
  "visit_ref g e st \<noteq> Old a \<Longrightarrow> old_objs (visit g d e st) a = old_objs st a"
  by (auto simp: visit_ref_def visit_def call_getNode_def push_def set_depth_def
      split: returned.splits)

lemma visit_ref_Old: "visit_ref g e st = Old a \<Longrightarrow> g e = Existing a"
  by (auto simp: visit_ref_def call_getNode_def split: returned.splits)

lemma visits_length: "length (flatList (visits g W st)) = length (flatList st) + length W"
  by (induction W arbitrary: st) (auto simp: visit_flatList)

lemma same_but_depth_trans:
  "same_but_depth x y \<Longrightarrow> same_but_depth y z \<Longrightarrow> same_but_depth x z"
  by (simp add: same_but_depth_def)

lemma visits_entries:
  fixes heap :: "nat \<Rightarrow> 'a NodeData"
  defines "st0 \<equiv> init_store heap"
  shows "(\<forall>k<length W. same_but_depth (deref (visits g W st0) (flatList (visits g W st0) ! k))
                          (node_content g heap (snd (snd (W ! k)))))
       \<and> (distinct (flatList (visits g W st0)) \<longrightarrow>
            (\<forall>k<length W. depth (deref (visits g W st0) (flatList (visits g W st0) ! k))
                             = Some (fst (snd (W ! k)))))"
proof (induction W rule: rev_induct)
  case Nil
  then show ?case by simp
next
  case (snoc v W)
  obtain q d y where v: "v = (q, d, y)" by (cases v)
  let ?st = "visits g W st0"
  let ?st' = "visit g d y ?st"
  let ?r = "visit_ref g y ?st"
  have st': "visits g (W @ [v]) st0 = ?st'" by (simp add: v)
  have len: "length (flatList ?st) = length W"
    by (simp add: visits_length st0_def init_store_def)
  have fl: "flatList ?st' = flatList ?st @ [?r]" by (rule visit_flatList)
  have ag: "agrees heap ?st"
    by (rule visits_agrees) (simp add: agrees_def st0_def init_store_def)
  have rv: "refs_valid ?st"
    by (rule visits_refs_valid) (simp add: refs_valid_def st0_def init_store_def)
  have valid: "valid_ref ?st (flatList ?st ! k)" if "k < length W" for k
    using rv that len by (simp add: refs_valid_def list_all_length)
  have old_k: "flatList ?st' ! k = flatList ?st ! k" if "k < length W" for k
    using that len by (simp add: fl nth_append)
  have new_k: "flatList ?st' ! length W = ?r"
    using len by (simp add: fl nth_append)
  have part1: "same_but_depth (deref ?st' (flatList ?st' ! k)) (node_content g heap (snd (snd ((W @ [v]) ! k))))"
    if k: "k < length (W @ [v])" for k
  proof (cases "k < length W")
    case True
    have "same_but_depth (deref ?st' (flatList ?st ! k)) (deref ?st (flatList ?st ! k))"
      by (rule visit_deref_same_but_depth [OF valid [OF True]])
    moreover have "same_but_depth (deref ?st (flatList ?st ! k)) (node_content g heap (snd (snd (W ! k))))"
      using snoc.IH True by blast
    ultimately show ?thesis
      using True by (simp add: old_k nth_append same_but_depth_trans [where y = "deref ?st (flatList ?st ! k)"])
  next
    case False
    with k have "k = length W" by simp
    then show ?thesis
      using visit_deref_new [OF ag, of g d y] by (simp add: new_k v)
  qed
  have part2: "depth (deref ?st' (flatList ?st' ! k)) = Some (fst (snd ((W @ [v]) ! k)))"
    if dist: "distinct (flatList ?st')" and k: "k < length (W @ [v])" for k
  proof (cases "k < length W")
    case True
    from dist have d0: "distinct (flatList ?st)" and notin: "?r \<notin> set (flatList ?st)"
      by (simp_all add: fl)
    have "flatList ?st ! k \<in> set (flatList ?st)" using True len by simp
    with notin have ne: "flatList ?st ! k \<noteq> ?r" by auto
    have "deref ?st' (flatList ?st ! k) = deref ?st (flatList ?st ! k)"
      by (rule visit_deref_other [OF valid [OF True] ne])
    moreover have "depth (deref ?st (flatList ?st ! k)) = Some (fst (snd (W ! k)))"
      using snoc.IH d0 True by blast
    ultimately show ?thesis using True by (simp add: old_k nth_append)
  next
    case False
    with k have "k = length W" by simp
    then show ?thesis by (simp add: new_k v visit_depth_new)
  qed
  show ?case unfolding st' using part1 part2 by blast
qed

lemma visits_frame:
  fixes heap :: "nat \<Rightarrow> 'a NodeData"
  defines "st0 \<equiv> init_store heap"
  shows "(\<forall>a. Old a \<notin> set (flatList (visits g W st0)) \<longrightarrow> old_objs (visits g W st0) a = heap a)
       \<and> (\<forall>a. Old a \<in> set (flatList (visits g W st0)) \<longrightarrow> (\<exists>x. g x = Existing a))"
proof (induction W rule: rev_induct)
  case Nil
  then show ?case by (simp add: st0_def init_store_def)
next
  case (snoc v W)
  obtain q d y where v: "v = (q, d, y)" by (cases v)
  let ?st = "visits g W st0"
  have st': "visits g (W @ [v]) st0 = visit g d y ?st" by (simp add: v)
  have fl: "flatList (visit g d y ?st) = flatList ?st @ [visit_ref g y ?st]" by (rule visit_flatList)
  show ?case
    unfolding st' fl using snoc.IH
    by (auto simp: visit_old_objs_other dest: visit_ref_Old visit_ref_Old [OF sym])
qed

lemma visible_Nil [simp]: "\<not> visible c xs []"
  by (simp add: visible_def)

lemma elem_at_Cons_0: "elem_at c (x # xs) (0 # q) = (if q = [] then Some x else elem_at c (subs_of (c x)) q)"
  by (cases q) simp_all

lemma elem_at_Cons_Suc: "elem_at c (x # xs) (Suc j # q) = elem_at c xs (j # q)"
  by (cases q) simp_all

lemma visible_Cons_0:
  "visible c (x # xs) (0 # q) \<longleftrightarrow>
     q = [] \<or> (truthy_bool (isExpanded (c x)) \<and> visible c (subs_of (c x)) q)"
  by (cases q) (auto simp: visible_def)

lemma visible_Cons_Suc: "visible c (x # xs) (Suc j # q) \<longleftrightarrow> visible c xs (j # q)"
  by (cases q) (auto simp: visible_def)

lemma node_ok_leaf:
  "\<not> truthy_bool (isExpanded (c e)) \<Longrightarrow> node_ok c d e [([], d, e)]"
  by (auto simp: node_ok_def)

lemma node_ok_expanded:
  assumes ex: "truthy_bool (isExpanded (c e))"
    and f: "forest_ok c (Suc d) 0 (subs_of (c e)) W"
  shows "node_ok c d e (([], d, e) # W)"
proof -
  from f have s: "sorted_wrt (<) (map fst W)"
    and m: "\<And>p. p \<in> fst ` set W \<longleftrightarrow> (\<exists>j q. p = j # q \<and> visible c (subs_of (c e)) (j # q))"
    and e: "\<And>p d' y. (p, d', y) \<in> set W \<Longrightarrow>
            (\<exists>j q. p = j # q \<and> d' = Suc d + length q \<and> elem_at c (subs_of (c e)) (j # q) = Some y)"
    unfolding forest_ok_def by auto
  have ne: "p \<noteq> []" if "p \<in> fst ` set W" for p using m [of p] that by auto
  have "[] < p" if "p \<in> set (map fst W)" for p
    using ne [of p] that by (cases p) auto
  then have 1: "sorted_wrt (<) (map fst (([], d, e) # W))"
    using s by simp
  have 2: "p \<in> fst ` set (([], d, e) # W) \<longleftrightarrow>
            p = [] \<or> (truthy_bool (isExpanded (c e)) \<and> visible c (subs_of (c e)) p)" for p
  proof (cases p)
    case Nil
    then show ?thesis by simp
  next
    case (Cons j q)
    then show ?thesis using m [of p] ex by auto
  qed
  have 3: "d' = d + length p \<and> (if p = [] then y = e else elem_at c (subs_of (c e)) p = Some y)"
    if "(p, d', y) \<in> set (([], d, e) # W)" for p d' y
  proof (cases "(p, d', y) = ([], d, e)")
    case True
    then show ?thesis by simp
  next
    case False
    with that have "(p, d', y) \<in> set W" by auto
    from e [OF this] show ?thesis by auto
  qed
  show ?thesis unfolding node_ok_def using 1 2 3 by blast
qed

lemma forest_ok_Nil: "forest_ok c d i [] []"
  by (auto simp: forest_ok_def visible_def elim: elem_at.elims)

lemma set_shift_paths:
  "(p, d', y) \<in> set (shift_paths i W) \<longleftrightarrow> (\<exists>q. p = i # q \<and> (q, d', y) \<in> set W)"
  by (auto simp: shift_paths_def)

lemma map_fst_shift_paths: "map fst (shift_paths i W) = map ((#) i) (map fst W)"
  by (simp add: shift_paths_def case_prod_unfold)

lemma forest_ok_Cons:
  assumes n: "node_ok c d x W" and f: "forest_ok c d (Suc i) xs W'"
  shows "forest_ok c d i (x # xs) (shift_paths i W @ W')"
proof -
  from n have sn: "sorted_wrt (<) (map fst W)"
    and mn: "\<And>p. p \<in> fst ` set W \<longleftrightarrow>
            p = [] \<or> (truthy_bool (isExpanded (c x)) \<and> visible c (subs_of (c x)) p)"
    and en: "\<And>p d' y. (p, d', y) \<in> set W \<Longrightarrow>
            d' = d + length p \<and> (if p = [] then y = x else elem_at c (subs_of (c x)) p = Some y)"
    unfolding node_ok_def by auto
  from f have sf: "sorted_wrt (<) (map fst W')"
    and mf: "\<And>p. p \<in> fst ` set W' \<longleftrightarrow> (\<exists>j q. p = (Suc i + j) # q \<and> visible c xs (j # q))"
    and ef: "\<And>p d' y. (p, d', y) \<in> set W' \<Longrightarrow>
            (\<exists>j q. p = (Suc i + j) # q \<and> d' = d + length q \<and> elem_at c xs (j # q) = Some y)"
    unfolding forest_ok_def by auto
  have s1: "sorted_wrt (<) (map ((#) i) (map fst W))"
    using sn by (simp add: sorted_wrt_map)
  have cross: "a < b" if "a \<in> set (map ((#) i) (map fst W))" "b \<in> set (map fst W')" for a b
  proof -
    from that(1) obtain q where a: "a = i # q" by auto
    from that(2) mf [of b] obtain j q' where b: "b = (Suc i + j) # q'" by auto
    show ?thesis by (simp add: a b)
  qed
  have 1: "sorted_wrt (<) (map fst (shift_paths i W @ W'))"
    using s1 sf cross by (simp add: map_fst_shift_paths sorted_wrt_append del: map_map)
  have img: "fst ` set (shift_paths i W) = (#) i ` fst ` set W"
    using arg_cong [OF map_fst_shift_paths [of i W], of set] by (simp add: image_image)
  have 2: "p \<in> fst ` set (shift_paths i W @ W') \<longleftrightarrow>
             (\<exists>j q. p = (i + j) # q \<and> visible c (x # xs) (j # q))" for p
  proof
    assume "p \<in> fst ` set (shift_paths i W @ W')"
    then have "p \<in> (#) i ` fst ` set W \<or> p \<in> fst ` set W'"
      by (simp add: image_Un img)
    then consider (a) q where "p = i # q" "q \<in> fst ` set W" | (b) "p \<in> fst ` set W'"
      by blast
    then show "\<exists>j q. p = (i + j) # q \<and> visible c (x # xs) (j # q)"
    proof cases
      case a
      from a(2) mn [of q] have "visible c (x # xs) (0 # q)" by (simp add: visible_Cons_0)
      with a(1) show ?thesis by (intro exI [of _ 0] exI [of _ q]) simp
    next
      case b
      with mf [of p] obtain j q where "p = (Suc i + j) # q" "visible c xs (j # q)" by auto
      then show ?thesis by (intro exI [of _ "Suc j"] exI [of _ q]) (simp add: visible_Cons_Suc)
    qed
  next
    assume "\<exists>j q. p = (i + j) # q \<and> visible c (x # xs) (j # q)"
    then obtain j q where p: "p = (i + j) # q" and v: "visible c (x # xs) (j # q)" by blast
    show "p \<in> fst ` set (shift_paths i W @ W')"
    proof (cases j)
      case 0
      with v mn [of q] have "q \<in> fst ` set W" by (simp add: visible_Cons_0)
      then have "p \<in> (#) i ` fst ` set W" using p 0 by simp
      then show ?thesis by (simp add: image_Un img)
    next
      case (Suc j')
      with v have "visible c xs (j' # q)" by (simp add: visible_Cons_Suc)
      with mf [of p] p Suc have "p \<in> fst ` set W'" by auto
      then show ?thesis by (simp add: image_Un)
    qed
  qed
  have 3: "\<exists>j q. p = (i + j) # q \<and> d' = d + length q \<and> elem_at c (x # xs) (j # q) = Some y"
    if "(p, d', y) \<in> set (shift_paths i W @ W')" for p d' y
  proof -
    from that consider (a) q where "p = i # q" "(q, d', y) \<in> set W" | (b) "(p, d', y) \<in> set W'"
      by (auto simp: set_shift_paths)
    then show ?thesis
    proof cases
      case a
      from en [OF a(2)] have "d' = d + length q" "elem_at c (x # xs) (0 # q) = Some y"
        by (auto simp: elem_at_Cons_0 split: if_splits)
      with a(1) show ?thesis by (intro exI [of _ 0] exI [of _ q]) simp
    next
      case b
      from ef [OF b] obtain j q where "p = (Suc i + j) # q" "d' = d + length q"
        "elem_at c xs (j # q) = Some y" by blast
      then show ?thesis by (intro exI [of _ "Suc j"] exI [of _ q]) (simp add: elem_at_Cons_Suc)
    qed
  qed
  show ?thesis unfolding forest_ok_def using 1 2 3 by blast
qed

lemma walk_ok:
  "walk_node n c d e = Some W \<Longrightarrow> node_ok c d e W"
  "walk_forest n c d i xs = Some W' \<Longrightarrow> forest_ok c d i xs W'"
proof (induction n c d e and n c d i xs arbitrary: W and W' rule: walk_node_walk_forest.induct)
  case (1 c d e)
  then show ?case by simp
next
  case (2 n c d e)
  show ?case
  proof (cases "truthy_bool (isExpanded (c e))")
    case True
    with "2.prems" obtain V where V: "walk_forest n c (d + 1) 0 (subs_of (c e)) = Some V"
      and W: "W = ([], d, e) # V" by auto
    from "2.IH" [OF True V] have "forest_ok c (Suc d) 0 (subs_of (c e)) V" by simp
    then show ?thesis unfolding W by (rule node_ok_expanded [of c e, OF True])
  next
    case False
    with "2.prems" have "W = [([], d, e)]" by simp
    then show ?thesis using node_ok_leaf [of c e d, OF False] by simp
  qed
next
  case (3 n c d i)
  then show ?case by (simp add: forest_ok_Nil)
next
  case (4 n c d i x xs)
  from "4.prems" obtain V V' where V: "walk_node n c d x = Some V"
    and V': "walk_forest n c d (Suc i) xs = Some V'"
    and W': "W' = shift_paths i V @ V'"
    by (auto split: option.splits)
  show ?case
    unfolding W' by (rule forest_ok_Cons [OF "4.IH"(1) [OF V] "4.IH"(2) [OF V V']])
qed

lemma walk_returns:
  "(\<And>x y. truthy_bool (isExpanded (c x)) \<Longrightarrow> y \<in> set (subs_of (c x)) \<Longrightarrow> rk y < (rk x :: nat))
     \<Longrightarrow> rk e < n \<Longrightarrow> walk_node n c d e \<noteq> None"
  "(\<And>x y. truthy_bool (isExpanded (c x)) \<Longrightarrow> y \<in> set (subs_of (c x)) \<Longrightarrow> rk y < (rk x :: nat))
     \<Longrightarrow> \<forall>x\<in>set xs. rk x < n \<Longrightarrow> walk_forest n c d i xs \<noteq> None"
proof (induction n c d e and n c d i xs rule: walk_node_walk_forest.induct)
  case (1 c d e)
  then show ?case by simp
next
  case (2 n c d e)
  show ?case
  proof (cases "truthy_bool (isExpanded (c e))")
    case True
    have "\<forall>y\<in>set (subs_of (c e)). rk y < n"
    proof
      fix y assume "y \<in> set (subs_of (c e))"
      from "2.prems"(1) [OF True this] "2.prems"(2) show "rk y < n" by simp
    qed
    from "2.IH" [OF True "2.prems"(1) this] show ?thesis using True by simp
  next
    case False
    then show ?thesis by simp
  qed
next
  case (3 n c d i)
  then show ?case by simp
next
  case (4 n c d i x xs)
  from "4.prems"(2) have x: "rk x < n" and xs: "\<forall>y\<in>set xs. rk y < n" by simp_all
  from "4.IH"(1) [OF "4.prems"(1) x] obtain V where V: "walk_node n c d x = Some V" by auto
  from "4.IH"(2) [OF V "4.prems"(1) xs] show ?case by (auto simp: V)
qed

text \<open>
  C4, as amended. Let \<open>rk\<close> rank the elements so that every sub-node of an expanded
  node ranks below it, and let the fuel exceed the rank of every root: then the pass
  returns. The paths of its entries, in the order of the list, are strictly increasing
  in the lexicographic order of paths, which is depth-first preorder, and they are
  exactly the paths to a node all of whose ancestors have \<open>isExpanded\<close> true. Each
  entry agrees with what \<open>getNode\<close> says of its node on every property but \<open>depth\<close>;
  and when no object occurs twice in the list, the \<open>depth\<close> of each entry is the
  length of its path less one, its distance from the root.
\<close>

theorem flatNodesList_preorder_of_visible_nodes:
  assumes rank: "\<And>x y. truthy_bool (isExpanded (node_content getNode heap x)) \<Longrightarrow>
                     y \<in> set (subs_of (node_content getNode heap x)) \<Longrightarrow> rk y < (rk x :: nat)"
    and fuel: "\<forall>x\<in>set data. rk x < fuel"
  shows "\<exists>st ps. flatNodesList fuel getNode data heap = Some st
           \<and> sorted_wrt (<) ps
           \<and> set ps = {p. visible (node_content getNode heap) data p}
           \<and> length (rendered_nodes st) = length ps
           \<and> (\<forall>k<length ps. \<exists>y. elem_at (node_content getNode heap) data (ps ! k) = Some y
                  \<and> same_but_depth (rendered_nodes st ! k) (node_content getNode heap y))
           \<and> (distinct (flatList st) \<longrightarrow>
                (\<forall>k<length ps. depth (rendered_nodes st ! k) = Some (length (ps ! k) - 1)))"
proof -
  let ?c = "node_content getNode heap"
  from walk_returns(2) [of ?c rk data fuel 0 0, OF rank fuel]
  obtain W where W: "walk_forest fuel ?c 0 0 data = Some W" by auto
  define st where "st = visits getNode W (init_store heap)"
  have run: "flatNodesList fuel getNode data heap = Some st"
    by (simp add: flatNodesList_simulates W st_def init_store_def)
  from walk_ok(2) [OF W] have s: "sorted_wrt (<) (map fst W)"
    and m: "\<And>p. p \<in> fst ` set W \<longleftrightarrow> (\<exists>j q. p = j # q \<and> visible ?c data (j # q))"
    and e: "\<And>p d' y. (p, d', y) \<in> set W \<Longrightarrow>
            (\<exists>j q. p = j # q \<and> d' = length q \<and> elem_at ?c data (j # q) = Some y)"
    unfolding forest_ok_def by auto
  have set_eq: "set (map fst W) = {p. visible ?c data p}"
  proof (rule set_eqI)
    fix p
    show "p \<in> set (map fst W) \<longleftrightarrow> p \<in> {p. visible ?c data p}"
      using m [of p] by (cases p) auto
  qed
  have len: "length (flatList st) = length W"
    by (simp add: st_def visits_length init_store_def)
  have rn: "rendered_nodes st ! k = deref st (flatList st ! k)" if "k < length W" for k
    using that len by (simp add: rendered_nodes_def)
  have at: "\<exists>j q. fst (W ! k) = j # q \<and> fst (snd (W ! k)) = length q
              \<and> elem_at ?c data (j # q) = Some (snd (snd (W ! k)))" if "k < length W" for k
  proof -
    have "(fst (W ! k), fst (snd (W ! k)), snd (snd (W ! k))) \<in> set W"
      using that by simp
    from e [OF this] show ?thesis .
  qed
  note ent = visits_entries [of W getNode heap, folded st_def]
  have p4: "\<exists>y. elem_at ?c data (map fst W ! k) = Some y
              \<and> same_but_depth (rendered_nodes st ! k) (?c y)" if "k < length (map fst W)" for k
  proof -
    from that have k: "k < length W" by simp
    from at [OF k] have "elem_at ?c data (fst (W ! k)) = Some (snd (snd (W ! k)))" by auto
    moreover from ent k have "same_but_depth (rendered_nodes st ! k) (?c (snd (snd (W ! k))))"
      by (simp add: rn)
    ultimately show ?thesis using k by auto
  qed
  have p5: "depth (rendered_nodes st ! k) = Some (length (map fst W ! k) - 1)"
    if "distinct (flatList st)" "k < length (map fst W)" for k
  proof -
    from that have k: "k < length W" by simp
    from at [OF k] have "fst (snd (W ! k)) = length (fst (W ! k)) - 1" by auto
    moreover from ent that(1) k have "depth (rendered_nodes st ! k) = Some (fst (snd (W ! k)))"
      by (simp add: rn)
    ultimately show ?thesis using k by simp
  qed
  have p3: "length (rendered_nodes st) = length (map fst W)"
    by (simp add: rendered_nodes_def len)
  from run s set_eq p3 p4 p5 show ?thesis by blast
qed

text \<open>
  C9. The elements of \<open>data\<close> are objects, given by their addresses. When \<open>getNode\<close>
  never hands out an object that is an element of \<open>data\<close>, a pass that returns leaves
  every element of \<open>data\<close> as it was; whatever \<open>getNode\<close> hands out, every object that
  existed before the pass keeps all its properties but \<open>depth\<close>, and an object that is
  not in the list keeps that too.
\<close>

theorem flatNodesList_writes_only_depth:
  fixes data :: "nat list" and getNode :: "nat \<Rightarrow> nat returned"
  assumes apart: "\<And>x a. getNode x = Existing a \<Longrightarrow> a \<notin> set data"
    and run: "flatNodesList fuel getNode data heap = Some st"
  shows "(\<forall>e\<in>set data. old_objs st e = heap e)
       \<and> (\<forall>a. same_but_depth (old_objs st a) (heap a))
       \<and> (\<forall>a. Old a \<notin> set (flatList st) \<longrightarrow> old_objs st a = heap a)"
proof -
  from run obtain W where st: "st = visits getNode W (init_store heap)"
    by (auto simp: flatNodesList_simulates init_store_def)
  note fr = visits_frame [of getNode W heap, folded st]
  have "agrees heap st"
    unfolding st by (rule visits_agrees) (simp add: agrees_def init_store_def)
  then have 2: "\<forall>a. same_but_depth (old_objs st a) (heap a)" by (simp add: agrees_def)
  have 1: "\<forall>e\<in>set data. old_objs st e = heap e"
  proof
    fix e assume e: "e \<in> set data"
    have "Old e \<notin> set (flatList st)"
    proof
      assume "Old e \<in> set (flatList st)"
      with fr obtain x where "getNode x = Existing e" by blast
      from apart [OF this] e show False by simp
    qed
    with fr show "old_objs st e = heap e" by blast
  qed
  from 1 2 fr show ?thesis by blast
qed

lemma cyclic_never_returns:
  "addSubNodes n ex_cyclic_getNode e d st = None"
proof (induction n arbitrary: e d st)
  case 0
  then show ?case by simp
next
  case (Suc n)
  show ?case
    unfolding addSubNodes_Suc
    by (simp add: Let_def visit_def visit_ref_def call_getNode_def ex_cyclic_getNode_def push_def
        set_depth_def deref_def truthy_bool_def subs_of_def ex_leaf_def Suc.IH)
qed

text \<open>
  C4 as stated fails in two ways. When \<open>getNode\<close> hands out the same object for a node
  that is both a root and a sub-node of an expanded root, the later write of \<open>depth\<close>
  wins: the entry at path \<open>[0, 0]\<close>, one below a root, reads depth 0. And when a node
  is an expanded sub-node of itself the pass returns for no fuel, so there is no list.
\<close>

theorem flatNodesList_shared_object_counterexample:
  "map_option (\<lambda>st. (flatList st, map depth (rendered_nodes st)))
     (flatNodesList 2 ex_shared_getNode [0, 1] ex_shared_heap)
     = Some ([Old 0, Old 1, Old 1], [Some 0, Some 0, Some 0])
   \<and> elem_at (node_content ex_shared_getNode ex_shared_heap) [0, 1] [0, 0] = Some 1
   \<and> visible (node_content ex_shared_getNode ex_shared_heap) [0, 1] [0, 0]
   \<and> (\<forall>fuel. flatNodesList fuel ex_cyclic_getNode [0] ex_shared_heap = None)"
proof -
  have 1: "map_option (\<lambda>st. (flatList st, map depth (rendered_nodes st)))
     (flatNodesList 2 ex_shared_getNode [0, 1] ex_shared_heap)
     = Some ([Old 0, Old 1, Old 1], [Some 0, Some 0, Some 0])" by code_simp
  have 2: "elem_at (node_content ex_shared_getNode ex_shared_heap) [0, 1] [0, 0] = Some 1"
    by code_simp
  have 3: "visible (node_content ex_shared_getNode ex_shared_heap) [0, 1] [0, 0]"
    by code_simp
  have 4: "flatNodesList fuel ex_cyclic_getNode [0] ex_shared_heap = None" for fuel
    by (simp add: flatNodesList_def cyclic_never_returns)
  from 1 2 3 4 show ?thesis by blast
qed

theorem flatNodesList_preorder_of_visible_nodes_witness:
  "\<exists>st. flatNodesList 2 ex_tree_getNode [1, 2] ex_shared_heap = Some st
     \<and> map node (rendered_nodes st) = [1, 11, 12, 2]
     \<and> map depth (rendered_nodes st) = [Some 0, Some 1, Some 1, Some 0]
     \<and> (\<exists>ps. sorted_wrt (<) ps
           \<and> set ps = {p. visible (node_content ex_tree_getNode ex_shared_heap) [1, 2] p}
           \<and> length ps = 4)"
proof -
  have rank: "\<And>x y. truthy_bool (isExpanded (node_content ex_tree_getNode ex_shared_heap x)) \<Longrightarrow>
      y \<in> set (subs_of (node_content ex_tree_getNode ex_shared_heap x)) \<Longrightarrow>
      (if y = 1 then 1 else 0) < (if x = 1 then 1 else (0::nat))"
    by (auto simp: node_content_def ex_tree_getNode_def truthy_bool_def subs_of_def split: if_splits)
  have fuel: "\<forall>x\<in>set [1, 2 :: nat]. (if x = 1 then 1 else (0::nat)) < 2" by simp
  from flatNodesList_preorder_of_visible_nodes [of ex_tree_getNode ex_shared_heap "\<lambda>x. if x = 1 then 1 else 0" "[1, 2]" 2, OF rank fuel]
  obtain st ps where run: "flatNodesList 2 ex_tree_getNode [1, 2] ex_shared_heap = Some st"
    and ps: "sorted_wrt (<) ps" "set ps = {p. visible (node_content ex_tree_getNode ex_shared_heap) [1, 2] p}"
      "length (rendered_nodes st) = length ps"
    by blast
  have ev: "map_option (\<lambda>st. (map node (rendered_nodes st), map depth (rendered_nodes st)))
      (flatNodesList 2 ex_tree_getNode [1, 2] ex_shared_heap)
      = Some ([1, 11, 12, 2], [Some 0, Some 1, Some 1, Some 0])" by code_simp
  from ev run have r: "map node (rendered_nodes st) = [1, 11, 12, 2]"
    "map depth (rendered_nodes st) = [Some 0, Some 1, Some 1, Some 0]" by simp_all
  from arg_cong [OF r(1), of length] ps(3) have l: "length ps = 4" by simp
  show ?thesis
    by (rule exI [of _ st], intro conjI, rule run, rule r(1), rule r(2), rule exI [of _ ps],
        intro conjI, rule ps(1), rule ps(2), rule l)
qed

theorem flatNodesList_writes_only_depth_witness:
  "\<exists>st. flatNodesList 2 ex_cached_getNode [0] ex_cached_heap = Some st
     \<and> flatList st = [Old 10, Old 11]
     \<and> map depth (rendered_nodes st) = [Some 0, Some 1]
     \<and> old_objs st 0 = ex_cached_heap 0"
proof -
  have apart: "\<And>x a. ex_cached_getNode x = Existing a \<Longrightarrow> a \<notin> set [0 :: nat]"
    by (auto simp: ex_cached_getNode_def)
  have ev: "map_option (\<lambda>st. (flatList st, map depth (rendered_nodes st)))
      (flatNodesList 2 ex_cached_getNode [0] ex_cached_heap)
      = Some ([Old 10, Old 11], [Some 0, Some 1])" by code_simp
  then obtain st where run: "flatNodesList 2 ex_cached_getNode [0] ex_cached_heap = Some st"
    and r: "flatList st = [Old 10, Old 11]" "map depth (rendered_nodes st) = [Some 0, Some 1]"
    by auto
  from flatNodesList_writes_only_depth [OF apart run] have o: "old_objs st 0 = ex_cached_heap 0"
    by simp
  show ?thesis
    by (rule exI [of _ st], intro conjI, rule run, rule r(1), rule r(2), rule o)
qed

end
